theory Spec2Isabelle
  imports Main "HOL-Library.AList"
begin

section \<open>Python values, strings and exceptions\<close>

text \<open>
  The pipeline handles JSON documents (the discovery manifest, the ingestion job) as Python
  dictionaries. A dictionary is an association list: insertion order is kept, and
  \<open>AList.update\<close> overwrites the value of a key in place or appends a new key at the end,
  as \<^verbatim>\<open>dict.update\<close> and \<^verbatim>\<open>d[k] = v\<close> do.
\<close>

datatype jval =
    JNull
  | JBool bool
  | JNum int
  | JStr string
  | JArr "jval list"
  | JObj "(string \<times> jval) list"

type_synonym pydict = "(string \<times> jval) list"

text \<open>
  Exceptions are values. Only subclasses of \<^verbatim>\<open>Exception\<close> are modelled (the ones an
  \<^verbatim>\<open>except Exception\<close> clause catches). \<open>ExternalError\<close> stands for whatever a library or
  the network raises; it carries the text that \<^verbatim>\<open>str(e)\<close> yields.
\<close>

datatype exn =
    KeyError string
  | IndexError
  | AttributeError string
  | RuntimeError string
  | NotFoundError string
  | ExternalError string

fun str_exn :: "exn \<Rightarrow> string" where
  "str_exn (KeyError k) = CHR 0x27 # k @ [CHR 0x27]"
| "str_exn IndexError = ''list index out of range''"
| "str_exn (AttributeError ty) =
     CHR 0x27 # ty @ CHR 0x27 # '' object has no attribute '' @ CHR 0x27 # ''split'' @ [CHR 0x27]"
| "str_exn (RuntimeError m) = m"
| "str_exn (NotFoundError m) = m"
| "str_exn (ExternalError m) = m"

text \<open>\<^verbatim>\<open>d[k]\<close> on a dictionary: the value, or \<^verbatim>\<open>KeyError\<close>.\<close>

definition getitem :: "pydict \<Rightarrow> string \<Rightarrow> exn + jval" where
  "getitem d k = (case map_of d k of None \<Rightarrow> Inl (KeyError k) | Some v \<Rightarrow> Inr v)"

text \<open>\<^verbatim>\<open>d.update({k1: v1, ...})\<close>: the pairs are stored one after the other.\<close>

fun dict_update :: "pydict \<Rightarrow> (string \<times> jval) list \<Rightarrow> pydict" where
  "dict_update d [] = d"
| "dict_update d ((k, v) # kvs) = dict_update (AList.update k v d) kvs"

text \<open>Truth value of a Python object, as \<^verbatim>\<open>if x:\<close> tests it.\<close>

fun truthy :: "jval \<Rightarrow> bool" where
  "truthy JNull = False"
| "truthy (JBool b) = b"
| "truthy (JNum n) = (n \<noteq> 0)"
| "truthy (JStr s) = (s \<noteq> [])"
| "truthy (JArr xs) = (xs \<noteq> [])"
| "truthy (JObj kvs) = (kvs \<noteq> [])"

fun type_name :: "jval \<Rightarrow> string" where
  "type_name JNull = ''NoneType''"
| "type_name (JBool b) = ''bool''"
| "type_name (JNum n) = ''int''"
| "type_name (JStr s) = ''str''"
| "type_name (JArr xs) = ''list''"
| "type_name (JObj kvs) = ''dict''"

subsection \<open>String operations\<close>

text \<open>
  Strings are lists of 8-bit characters. \<open>lower\<close> folds the ASCII letters only;
  Python's \<^verbatim>\<open>str.lower\<close> agrees with it on ASCII text.
\<close>

fun startswith :: "string \<Rightarrow> string \<Rightarrow> bool" where
  "startswith s [] = True"
| "startswith [] (p # ps) = False"
| "startswith (c # cs) (p # ps) = (c = p \<and> startswith cs ps)"

definition endswith :: "string \<Rightarrow> string \<Rightarrow> bool" where
  "endswith s suf = startswith (rev s) (rev suf)"

text \<open>\<^verbatim>\<open>sub in s\<close>: \<open>sub\<close> occurs in \<open>s\<close> as a contiguous substring.\<close>

fun contains :: "string \<Rightarrow> string \<Rightarrow> bool" where
  "contains [] sub = (sub = [])"
| "contains (c # cs) sub = (startswith (c # cs) sub \<or> contains cs sub)"

definition lower_char :: "char \<Rightarrow> char" where
  "lower_char c =
     (case map_of (zip ''ABCDEFGHIJKLMNOPQRSTUVWXYZ'' ''abcdefghijklmnopqrstuvwxyz'') c of
        None \<Rightarrow> c
      | Some l \<Rightarrow> l)"

definition lower :: "string \<Rightarrow> string" where
  "lower s = map lower_char s"

text \<open>\<^verbatim>\<open>s.lstrip(c)\<close> for a single character \<open>c\<close>: every leading \<open>c\<close> is removed.\<close>

definition lstrip :: "char \<Rightarrow> string \<Rightarrow> string" where
  "lstrip c s = dropWhile (\<lambda>x. x = c) s"

text \<open>
  \<^verbatim>\<open>s.split(sep)\<close> for a non-empty separator, scanning from the left. The counter is the
  number of characters of a separator just matched that are still to be skipped.
\<close>

fun split_aux :: "string \<Rightarrow> string \<Rightarrow> nat \<Rightarrow> string \<Rightarrow> string list" where
  "split_aux sep cur k [] = [rev cur]"
| "split_aux sep cur (Suc k) (c # cs) = split_aux sep cur k cs"
| "split_aux sep cur 0 (c # cs) =
     (if startswith (c # cs) sep then rev cur # split_aux sep [] (length sep - 1) cs
      else split_aux sep (c # cur) 0 cs)"

definition str_split :: "string \<Rightarrow> string \<Rightarrow> string list" where
  "str_split s sep = split_aux sep [] 0 s"

section \<open>Ingestion (\<^verbatim>\<open>ingestion.py\<close>)\<close>

text \<open>
  The collaborators of the ingestion run: the media back end (\<^verbatim>\<open>yt_dlp\<close>, run as a library
  and as a subprocess), the object store, the clock and \<^verbatim>\<open>os.path.splitext\<close>. Each one
  either returns or raises. \<open>run_yt_dlp\<close> is \<^verbatim>\<open>subprocess.run(cmd, check=True)\<close> followed
  by the \<^verbatim>\<open>glob\<close> of the temporary directory; \<open>extract_info\<close> yields the value of
  \<^verbatim>\<open>info.get("chapters", [])\<close>; \<open>splitext_ext\<close> is the last component of
  \<^verbatim>\<open>os.path.splitext\<close>.
\<close>

record backend =
  extract_info :: "string \<Rightarrow> exn + jval"
  run_yt_dlp :: "string \<Rightarrow> exn + string list"
  splitext_ext :: "string \<Rightarrow> string"
  s3_upload_file :: "string \<Rightarrow> string \<Rightarrow> exn option"
  s3_put_object :: "string \<Rightarrow> jval \<Rightarrow> exn option"
  utcnow_iso :: string

definition upload_youtube_audio_with_chapters ::
  "backend \<Rightarrow> jval \<Rightarrow> string \<Rightarrow> exn + (string \<times> string option)" where
  "upload_youtube_audio_with_chapters b video_url key_prefix =
     (case video_url of
        JStr url \<Rightarrow>
          (let video_id = last (str_split url ''v='') in
           case extract_info b url of
             Inl e \<Rightarrow> Inl e
           | Inr chapters \<Rightarrow>
               (case run_yt_dlp b url of
                  Inl e \<Rightarrow> Inl e
                | Inr downloaded_files \<Rightarrow>
                    (case downloaded_files of
                       [] \<Rightarrow> Inl (RuntimeError (''No file downloaded for '' @ url))
                     | local_file # _ \<Rightarrow>
                         (let ext = lstrip (CHR ''.'') (splitext_ext b local_file);
                              audio_key = key_prefix @ video_id @ ''.'' @ ext
                          in case s3_upload_file b local_file audio_key of
                               Some e \<Rightarrow> Inl e
                             | None \<Rightarrow>
                                 if truthy chapters then
                                   (let chapters_key = key_prefix @ video_id @ ''_chapters.json''
                                    in case s3_put_object b chapters_key chapters of
                                         Some e \<Rightarrow> Inl e
                                       | None \<Rightarrow> Inr (audio_key, Some chapters_key))
                                 else Inr (audio_key, None)))))
      | _ \<Rightarrow> Inl (AttributeError (type_name video_url)))"

text \<open>
  The body of the \<^verbatim>\<open>try\<close> block of the loop of \<^verbatim>\<open>run_ingestion\<close>, for one resource
  \<open>r\<close> (the copy \<^verbatim>\<open>enriched = dict(r)\<close> is \<open>r\<close> itself, values being immutable here).
  \<open>Inl e\<close>: the body raised \<open>e\<close>. \<open>Inr None\<close>: the body ran \<^verbatim>\<open>continue\<close>, so the
  \<^verbatim>\<open>processed.append(enriched)\<close> after the \<^verbatim>\<open>try\<close> statement is skipped.
  \<open>Inr (Some d)\<close>: the body completed with \<^verbatim>\<open>enriched\<close> equal to \<open>d\<close>.
\<close>

definition handle_resource :: "backend \<Rightarrow> pydict \<Rightarrow> exn + pydict option" where
  "handle_resource b r =
     (case getitem r ''type'' of
        Inl e \<Rightarrow> Inl e
      | Inr t \<Rightarrow>
          if t = JStr ''pdf'' then Inr None
          else if t = JStr ''video'' then
            (case getitem r ''url'' of
               Inl e \<Rightarrow> Inl e
             | Inr u \<Rightarrow>
                 (case upload_youtube_audio_with_chapters b u ''audio/'' of
                    Inl e \<Rightarrow> Inl e
                  | Inr (audio_key, chapters_key) \<Rightarrow>
                      if audio_key \<noteq> [] then
                        Inr (Some (dict_update r
                          [(''s3_key'', JStr audio_key),
                           (''chapters_key'',
                              (case chapters_key of None \<Rightarrow> JNull | Some k \<Rightarrow> JStr k)),
                           (''uploaded_at'', JStr (utcnow_iso b)),
                           (''status'', JStr ''success'')]))
                      else
                        Inr (Some (dict_update r
                          [(''status'', JStr ''failed''),
                           (''reason'', JStr ''upload returned None'')]))))
          else
            Inr (Some (dict_update r
              [(''status'', JStr ''skipped''), (''reason'', JStr ''unknown type'')])))"

text \<open>
  One iteration of the loop: the \<^verbatim>\<open>try\<close> body with its \<^verbatim>\<open>except Exception\<close> handler.
  The result is the record appended to \<^verbatim>\<open>processed\<close>, or \<open>None\<close> when nothing is
  appended.
\<close>

definition process_resource :: "backend \<Rightarrow> pydict \<Rightarrow> pydict option" where
  "process_resource b r =
     (case handle_resource b r of
        Inl e \<Rightarrow>
          Some (dict_update r [(''status'', JStr ''failed''), (''reason'', JStr (str_exn e))])
      | Inr out \<Rightarrow> out)"

text \<open>
  The loop over the manifest. The world may answer differently each time it is asked, so
  the collaborators are given per iteration: \<open>env i\<close> is their behaviour while the item
  at position \<open>i\<close> of the manifest is processed.
\<close>

fun ingest_loop :: "(nat \<Rightarrow> backend) \<Rightarrow> nat \<Rightarrow> pydict list \<Rightarrow> pydict list \<Rightarrow> pydict list" where
  "ingest_loop env i [] processed = processed"
| "ingest_loop env i (r # rs) processed =
     (case process_resource (env i) r of
        None \<Rightarrow> ingest_loop env (Suc i) rs processed
      | Some enriched \<Rightarrow> ingest_loop env (Suc i) rs (processed @ [enriched]))"

text \<open>\<^verbatim>\<open>sum(1 for r in processed if r["status"] == s)\<close>; the subscript may raise.\<close>

fun count_status :: "string \<Rightarrow> pydict list \<Rightarrow> exn + nat" where
  "count_status s [] = Inr 0"
| "count_status s (r # rs) =
     (case getitem r ''status'' of
        Inl e \<Rightarrow> Inl e
      | Inr v \<Rightarrow>
          (case count_status s rs of
             Inl e \<Rightarrow> Inl e
           | Inr n \<Rightarrow> Inr (if v = JStr s then Suc n else n)))"

record ingestion_job =
  job_id :: string
  ingested_at :: string
  num_total :: nat
  num_success :: nat
  num_failed :: nat
  resources :: "pydict list"

text \<open>
  \<^verbatim>\<open>run_ingestion\<close>, from the loaded manifest to the \<^verbatim>\<open>ingestion_metadata\<close> dictionary
  that is then written to the object store. The fresh identifier and the start time are
  parameters.
\<close>

definition run_ingestion ::
  "(nat \<Rightarrow> backend) \<Rightarrow> string \<Rightarrow> string \<Rightarrow> pydict list \<Rightarrow> exn + ingestion_job" where
  "run_ingestion env jid timestamp manifest =
     (let processed = ingest_loop env 0 manifest [] in
      case count_status ''success'' processed of
        Inl e \<Rightarrow> Inl e
      | Inr ns \<Rightarrow>
          (case count_status ''failed'' processed of
             Inl e \<Rightarrow> Inl e
           | Inr nf \<Rightarrow>
               Inr \<lparr>job_id = jid, ingested_at = timestamp, num_total = length manifest,
                    num_success = ns, num_failed = nf, resources = processed\<rparr>))"

section \<open>Discovery (\<^verbatim>\<open>discover_resources.py\<close>)\<close>

subsection \<open>Link classifier\<close>

definition classify_pdf :: "string \<Rightarrow> string" where
  "classify_pdf link_text =
     (let txt = lower link_text in
      if contains txt ''slide'' then ''slides''
      else if contains txt ''note'' \<or> contains txt ''lecture'' then ''notes''
      else ''unknown'')"

subsection \<open>Site crawler\<close>

text \<open>
  An anchor is the pair of its \<^verbatim>\<open>href\<close> and its text. A site maps a URL to what
  \<^verbatim>\<open>requests.get\<close> and the parser make of it: the anchors that carry an \<^verbatim>\<open>href\<close>, in
  document order, or the exception the request raised. The clock gives the text of the
  \<open>k\<close>-th reading of \<^verbatim>\<open>datetime.utcnow().isoformat()\<close> of a crawl, one reading per
  resource found.
\<close>

type_synonym anchor = "string \<times> string"

type_synonym site = "string \<Rightarrow> exn + anchor list"

text \<open>
  The variables \<^verbatim>\<open>visited\<close> and \<^verbatim>\<open>results\<close> shared by the nested function, and the log of
  the calls to \<^verbatim>\<open>requests.get\<close>, which the program does not keep but the claims
  speak of.
\<close>

record crawl_state =
  visited :: "string set"
  results :: "pydict list"
  fetched :: "string list"

definition pdf_resource :: "string \<Rightarrow> string \<Rightarrow> string \<Rightarrow> anchor \<Rightarrow> pydict" where
  "pdf_resource course_handle url now a =
     (case a of (href, text) \<Rightarrow>
        (let subtype = classify_pdf text;
             full_url = (if startswith href ''http'' then href else ''https://ocw.mit.edu'' @ href)
         in [(''url'', JStr full_url),
             (''type'', JStr ''pdf''),
             (''subtype'', JStr subtype),
             (''course_handle'', JStr course_handle),
             (''page_url'', JStr url),
             (''source'', JStr ''MIT OCW''),
             (''discovered_at'', JStr now)]))"

text \<open>The first loop over the anchors of a page: \<^verbatim>\<open># Find PDFs\<close>.\<close>

fun find_pdfs ::
  "(nat \<Rightarrow> string) \<Rightarrow> string \<Rightarrow> string \<Rightarrow> anchor list \<Rightarrow> pydict list \<Rightarrow> pydict list" where
  "find_pdfs clock course_handle url [] res = res"
| "find_pdfs clock course_handle url (a # as) res =
     (if endswith (fst a) ''.pdf''
      then find_pdfs clock course_handle url as
             (res @ [pdf_resource course_handle url (clock (length res)) a])
      else find_pdfs clock course_handle url as res)"

text \<open>
  \<^verbatim>\<open>scrape_page\<close> and its second loop, \<^verbatim>\<open># Recurse into subpages\<close>. Nothing in the
  program bounds the recursion, and on a site that never stops linking to new pages it does
  not return. The first numeric argument is the depth of recursion allowed; \<open>None\<close> says
  that this depth did not suffice. An exception inside the \<^verbatim>\<open>try\<close> block ends the work on
  that page only; the request is the one statement of the block that is taken to raise.
\<close>

fun scrape_page ::
    "site \<Rightarrow> (nat \<Rightarrow> string) \<Rightarrow> string \<Rightarrow> nat \<Rightarrow> string \<Rightarrow> crawl_state \<Rightarrow> crawl_state option"
  and recurse_subpages ::
    "site \<Rightarrow> (nat \<Rightarrow> string) \<Rightarrow> string \<Rightarrow> nat \<Rightarrow> anchor list \<Rightarrow> crawl_state
       \<Rightarrow> crawl_state option" where
  "scrape_page site clock course_handle 0 url st = None"
| "scrape_page site clock course_handle (Suc depth) url st =
     (if url \<in> visited st then Some st
      else
        (let st1 = st\<lparr>visited := insert url (visited st), fetched := fetched st @ [url]\<rparr> in
         case site url of
           Inl e \<Rightarrow> Some st1
         | Inr anchors \<Rightarrow>
             recurse_subpages site clock course_handle depth anchors
               (st1\<lparr>results := find_pdfs clock course_handle url anchors (results st1)\<rparr>)))"
| "recurse_subpages site clock course_handle depth [] st = Some st"
| "recurse_subpages site clock course_handle depth (a # as) st =
     (if startswith (fst a) ''/courses/'' \<and> contains (fst a) ''/pages/'' then
        (let full_url = ''https://ocw.mit.edu'' @ fst a in
         if full_url \<notin> visited st then
           (case scrape_page site clock course_handle depth full_url st of
              None \<Rightarrow> None
            | Some st' \<Rightarrow> recurse_subpages site clock course_handle depth as st')
         else recurse_subpages site clock course_handle depth as st)
      else recurse_subpages site clock course_handle depth as st)"

definition crawl :: "site \<Rightarrow> (nat \<Rightarrow> string) \<Rightarrow> nat \<Rightarrow> string \<Rightarrow> crawl_state option" where
  "crawl site clock depth course_handle =
     (let base_url = ''https://ocw.mit.edu/courses/'' @ course_handle @ ''/'' in
      scrape_page site clock course_handle depth base_url
        \<lparr>visited = {}, results = [], fetched = []\<rparr>)"

definition scrape_ocw_pdfs :: "site \<Rightarrow> (nat \<Rightarrow> string) \<Rightarrow> nat \<Rightarrow> string \<Rightarrow> pydict list option" where
  "scrape_ocw_pdfs site clock depth course_handle =
     map_option results (crawl site clock depth course_handle)"

subsection \<open>Video provider\<close>

text \<open>
  The provider's answers, with the fields the program reads: of a channel item its
  \<^verbatim>\<open>id\<close>, of a playlist its \<^verbatim>\<open>id\<close> and \<^verbatim>\<open>snippet.title\<close>, of a playlist item its
  \<^verbatim>\<open>snippet\<close>. A key of the answer that may be missing is an option. An answer is a
  function of the request.
\<close>

record channels_page =
  ch_items :: "string list option"

record playlist =
  pl_id :: string
  pl_title :: string

record playlists_page =
  pl_items :: "playlist list option"
  nextPageToken :: "string option"

record playlist_item =
  it_video_id :: string
  it_title :: string
  it_published_at :: string

record youtube =
  channels_list :: "string \<Rightarrow> nat \<Rightarrow> exn + channels_page"
  playlists_list :: "string \<Rightarrow> nat \<Rightarrow> string option \<Rightarrow> exn + playlists_page"
  playlist_items_list :: "string \<Rightarrow> nat \<Rightarrow> exn + playlist_item list option"

subsection \<open>Channel resolver\<close>

definition resolve_channel_id :: "youtube \<Rightarrow> string \<Rightarrow> exn + string" where
  "resolve_channel_id yt handle0 =
     (let handle = lstrip (CHR ''@'') handle0 in
      case channels_list yt handle 1 of
        Inl e \<Rightarrow> Inl e
      | Inr res \<Rightarrow>
          (case ch_items res of
             None \<Rightarrow> Inl (KeyError ''items'')
           | Some [] \<Rightarrow> Inl IndexError
           | Some (channel_id # _) \<Rightarrow> Inr channel_id))"

subsection \<open>Playlist enumerator\<close>

text \<open>
  The \<^verbatim>\<open>while True\<close> loop of \<^verbatim>\<open>list_all_playlists\<close>. It runs for as long as the provider
  hands out tokens, so it is a partial function: \<open>None\<close> is the loop that never ends. A
  request is the triple of \<^verbatim>\<open>channelId\<close>, \<^verbatim>\<open>maxResults\<close> and \<^verbatim>\<open>pageToken\<close>; the list
  of requests issued is returned beside the playlists.
\<close>

type_synonym playlists_request = "string \<times> nat \<times> string option"

partial_function (option) playlists_loop ::
  "youtube \<Rightarrow> string \<Rightarrow> playlist list \<Rightarrow> string option \<Rightarrow> playlists_request list
     \<Rightarrow> (exn + playlist list \<times> playlists_request list) option" where
  "playlists_loop yt channel_id playlists next_page_token reqs =
     (case playlists_list yt channel_id 50 next_page_token of
        Inl e \<Rightarrow> Some (Inl e)
      | Inr res \<Rightarrow>
          (let playlists' = playlists @ (case pl_items res of None \<Rightarrow> [] | Some xs \<Rightarrow> xs);
               reqs' = reqs @ [(channel_id, 50, next_page_token)];
               token = nextPageToken res
           in if token = None \<or> token = Some [] then Some (Inr (playlists', reqs'))
              else playlists_loop yt channel_id playlists' token reqs'))"

definition list_all_playlists_traced ::
  "youtube \<Rightarrow> string \<Rightarrow> (exn + playlist list \<times> playlists_request list) option" where
  "list_all_playlists_traced yt channel_id = playlists_loop yt channel_id [] None []"

definition list_all_playlists :: "youtube \<Rightarrow> string \<Rightarrow> (exn + playlist list) option" where
  "list_all_playlists yt channel_id =
     map_option (map_sum id fst) (list_all_playlists_traced yt channel_id)"

subsection \<open>Playlist matcher and video lister\<close>

text \<open>
  The nested iteration that fills the dictionary \<^verbatim>\<open>found_playlists\<close>, from titles to
  playlist identifiers.
\<close>

fun match_title :: "string \<Rightarrow> playlist list \<Rightarrow> (string \<times> string) list \<Rightarrow> (string \<times> string) list" where
  "match_title desired [] found = found"
| "match_title desired (pl # pls) found =
     (let title = pl_title pl in
      if contains (lower title) (lower desired)
      then match_title desired pls (AList.update title (pl_id pl) found)
      else match_title desired pls found)"

fun match_playlists ::
  "string list \<Rightarrow> playlist list \<Rightarrow> (string \<times> string) list \<Rightarrow> (string \<times> string) list" where
  "match_playlists [] all_playlists found = found"
| "match_playlists (desired # ds) all_playlists found =
     match_playlists ds all_playlists (match_title desired all_playlists found)"

definition video_resource :: "string \<Rightarrow> string \<Rightarrow> string \<Rightarrow> playlist_item \<Rightarrow> pydict" where
  "video_resource handle playlist_title now item =
     [(''url'', JStr (''https://www.youtube.com/watch?v='' @ it_video_id item)),
      (''title'', JStr (it_title item)),
      (''playlist_title'', JStr playlist_title),
      (''channel_handle'', JStr handle),
      (''published_at'', JStr (it_published_at item)),
      (''discovered_at'', JStr now),
      (''type'', JStr ''video''),
      (''subtype'', JStr ''lecture'')]"

definition fetch_videos_from_playlist ::
  "youtube \<Rightarrow> (nat \<Rightarrow> string) \<Rightarrow> string \<Rightarrow> string \<Rightarrow> string \<Rightarrow> nat \<Rightarrow> exn + pydict list" where
  "fetch_videos_from_playlist yt clock playlist_id handle playlist_title max_results =
     (case playlist_items_list yt playlist_id max_results of
        Inl e \<Rightarrow> Inl e
      | Inr res_items \<Rightarrow>
          Inr (map (\<lambda>(i, item). video_resource handle playlist_title (clock i) item)
                 (List.enumerate 0 (case res_items of None \<Rightarrow> [] | Some xs \<Rightarrow> xs))))"

fun fetch_found ::
  "youtube \<Rightarrow> (nat \<Rightarrow> string) \<Rightarrow> string \<Rightarrow> nat \<Rightarrow> (string \<times> string) list \<Rightarrow> pydict list
     \<Rightarrow> exn + pydict list" where
  "fetch_found yt clock handle max_results [] all_videos = Inr all_videos"
| "fetch_found yt clock handle max_results ((title, playlist_id) # found) all_videos =
     (case fetch_videos_from_playlist yt clock playlist_id handle title max_results of
        Inl e \<Rightarrow> Inl e
      | Inr videos \<Rightarrow> fetch_found yt clock handle max_results found (all_videos @ videos))"

definition fetch_youtube_playlists_by_title ::
  "youtube \<Rightarrow> (nat \<Rightarrow> string) \<Rightarrow> string \<Rightarrow> string list \<Rightarrow> nat \<Rightarrow> (exn + pydict list) option" where
  "fetch_youtube_playlists_by_title yt clock handle playlist_titles max_results =
     (case resolve_channel_id yt handle of
        Inl e \<Rightarrow> Some (Inl e)
      | Inr channel_id \<Rightarrow>
          (case list_all_playlists yt channel_id of
             None \<Rightarrow> None
           | Some (Inl e) \<Rightarrow> Some (Inl e)
           | Some (Inr all_playlists) \<Rightarrow>
               (let found_playlists = match_playlists playlist_titles all_playlists []
                in Some (fetch_found yt clock handle max_results found_playlists []))))"

section \<open>Notions used in the statements, and example inputs\<close>

subsection \<open>Ingestion\<close>

text \<open>
  A resource is a \<open>pdf\<close> resource when its \<open>type\<close> field is the string \<open>pdf\<close>. The
  outcome keys are the fields the ingestion handlers write.
\<close>

definition is_pdf :: "pydict \<Rightarrow> bool" where
  "is_pdf r = (map_of r ''type'' = Some (JStr ''pdf''))"

definition outcome_keys :: "string set" where
  "outcome_keys = {''status'', ''reason'', ''s3_key'', ''chapters_key'', ''uploaded_at''}"

text \<open>
  \<open>video_item b r res\<close>: the resource \<open>r\<close> is a video with a \<open>url\<close> field, and with the
  collaborators \<open>b\<close> its acquisition ends as \<open>res\<close>: it raises (\<open>Inl\<close>) or returns the
  two keys (\<open>Inr\<close>).
\<close>

definition video_item :: "backend \<Rightarrow> pydict \<Rightarrow> (exn + (string \<times> string option)) \<Rightarrow> bool" where
  "video_item b r res =
     (map_of r ''type'' = Some (JStr ''video'') \<and>
      (\<exists>u. map_of r ''url'' = Some u \<and> upload_youtube_audio_with_chapters b u ''audio/'' = res))"

text \<open>
  Example inputs: collaborators that succeed, collaborators whose download raises an
  exception of a given text, and manifests built from a few resources.
\<close>

definition ok_backend :: backend where
  "ok_backend =
     \<lparr>extract_info = (\<lambda>url. Inr (JArr [])),
      run_yt_dlp = (\<lambda>url. Inr [''/tmp/dl/audio.m4a'']),
      splitext_ext = (\<lambda>path. ''.m4a''),
      s3_upload_file = (\<lambda>path key. None),
      s3_put_object = (\<lambda>key body. None),
      utcnow_iso = ''2025-09-24T20:21:00''\<rparr>"

definition raising_backend :: "string \<Rightarrow> backend" where
  "raising_backend msg = ok_backend\<lparr>run_yt_dlp := (\<lambda>url. Inl (ExternalError msg))\<rparr>"

definition video :: "string \<Rightarrow> pydict" where
  "video vid =
     [(''url'', JStr (''https://www.youtube.com/watch?v='' @ vid)),
      (''title'', JStr ''Lecture''),
      (''type'', JStr ''video''),
      (''subtype'', JStr ''lecture'')]"

definition slides_pdf :: pydict where
  "slides_pdf =
     [(''url'', JStr ''https://ocw.mit.edu/courses/c/slides.pdf''),
      (''type'', JStr ''pdf''),
      (''subtype'', JStr ''slides'')]"

definition steady_env :: "nat \<Rightarrow> backend" where
  "steady_env i = ok_backend"

definition third_fails_env :: "string \<Rightarrow> nat \<Rightarrow> backend" where
  "third_fails_env msg i = (if i = 2 then raising_backend msg else ok_backend)"

definition mixed_manifest :: "pydict list" where
  "mixed_manifest = [slides_pdf, video ''abc'', [(''type'', JStr ''audio'')]]"

definition five_videos :: "pydict list" where
  "five_videos = [video ''v1'', video ''v2'', video ''v3'', video ''v4'', video ''v5'']"

lemmas ex_defs = ok_backend_def raising_backend_def video_def slides_pdf_def steady_env_def
  third_fails_env_def mixed_manifest_def five_videos_def

subsection \<open>Crawler\<close>

text \<open>
  The log of requests has no duplicates and holds the visited set.
\<close>

definition fetch_inv :: "crawl_state \<Rightarrow> bool" where
  "fetch_inv st = (distinct (fetched st) \<and> set (fetched st) = visited st)"

text \<open>
  The test of the second loop of \<^verbatim>\<open>scrape_page\<close>, the URLs a page makes the crawler follow, and
  the same for a URL of a site (none when the request raises).
\<close>

definition follows :: "anchor \<Rightarrow> bool" where
  "follows a = (startswith (fst a) ''/courses/'' \<and> contains (fst a) ''/pages/'')"

definition sub_links :: "anchor list \<Rightarrow> string list" where
  "sub_links as = map (\<lambda>a. ''https://ocw.mit.edu'' @ fst a) (filter follows as)"

definition out_links :: "site \<Rightarrow> string \<Rightarrow> string list" where
  "out_links site u = (case site u of Inl e \<Rightarrow> [] | Inr as \<Rightarrow> sub_links as)"

text \<open>
  The test of the first loop, and the \<open>url\<close> the program gives a resource: the \<open>href\<close> when
  it starts with \<open>http\<close>, the site origin followed by the \<open>href\<close> otherwise.
\<close>

definition pdf_anchor :: "anchor \<Rightarrow> bool" where
  "pdf_anchor a = endswith (fst a) ''.pdf''"

definition absolute_url :: "string \<Rightarrow> string" where
  "absolute_url href = (if startswith href ''http'' then href else ''https://ocw.mit.edu'' @ href)"

text \<open>The (page, anchor) pairs of a page that carry a document link.\<close>

definition page_pdf_anchors :: "site \<Rightarrow> string \<Rightarrow> (string \<times> anchor) list" where
  "page_pdf_anchors site url =
     (case site url of Inl e \<Rightarrow> [] | Inr anchors \<Rightarrow> map (Pair url) (filter pdf_anchor anchors))"

text \<open>
  The resource \<open>d\<close> is the one emitted for an anchor found on a page; and the state of a
  crawl whose results are those emitted for the document anchors of the pages requested
  so far.
\<close>

definition emitted_for :: "string \<times> anchor \<Rightarrow> pydict \<Rightarrow> bool" where
  "emitted_for ua d =
     (map_of d ''url'' = Some (JStr (absolute_url (fst (snd ua)))) \<and>
      map_of d ''type'' = Some (JStr ''pdf'') \<and>
      map_of d ''subtype'' = Some (JStr (classify_pdf (snd (snd ua)))) \<and>
      map_of d ''page_url'' = Some (JStr (fst ua)))"

definition emit_inv :: "site \<Rightarrow> crawl_state \<Rightarrow> bool" where
  "emit_inv site s =
     list_all2 emitted_for (concat (map (page_pdf_anchors site) (fetched s))) (results s)"

text \<open>
  Example inputs: a clock, and a site of three pages where \<open>a\<close> and \<open>b\<close> link to each
  other.
\<close>

definition tick :: "nat \<Rightarrow> string" where
  "tick k = ''2025-09-24T20:20:15''"

definition cyclic_site :: site where
  "cyclic_site url =
     (if url = ''https://ocw.mit.edu/courses/algo/'' then
        Inr [(''/courses/algo/pages/a/'', ''Part A'')]
      else if url = ''https://ocw.mit.edu/courses/algo/pages/a/'' then
        Inr [(''/courses/algo/pages/b/'', ''Part B''),
             (''/courses/algo/slides1.pdf'', ''Lecture 1 Slides''),
             (''/courses/algo/scan.PDF'', ''Scanned notes'')]
      else if url = ''https://ocw.mit.edu/courses/algo/pages/b/'' then
        Inr [(''/courses/algo/pages/a/'', ''Back to part A''),
             (''https://example.org/handout.pdf'', ''Handout'')]
      else Inl (ExternalError ''404''))"

definition cyclic_pages :: "string set" where
  "cyclic_pages =
     {''https://ocw.mit.edu/courses/algo/'', ''https://ocw.mit.edu/courses/algo/pages/a/'',
      ''https://ocw.mit.edu/courses/algo/pages/b/''}"

subsection \<open>Playlist enumerator\<close>

text \<open>
  The token sent with the \<open>k\<close>-th request of the enumeration of a channel (counting from
  0), the provider's answer to that request, and the playlists on it.
\<close>

fun page_token :: "youtube \<Rightarrow> string \<Rightarrow> nat \<Rightarrow> string option" where
  "page_token yt channel_id 0 = None"
| "page_token yt channel_id (Suc k) =
     (case playlists_list yt channel_id 50 (page_token yt channel_id k) of
        Inl e \<Rightarrow> None
      | Inr res \<Rightarrow> nextPageToken res)"

definition page_answer :: "youtube \<Rightarrow> string \<Rightarrow> nat \<Rightarrow> exn + playlists_page" where
  "page_answer yt channel_id k = playlists_list yt channel_id 50 (page_token yt channel_id k)"

definition items_of :: "playlists_page \<Rightarrow> playlist list" where
  "items_of res = (case pl_items res of None \<Rightarrow> [] | Some xs \<Rightarrow> xs)"

definition page_items :: "youtube \<Rightarrow> string \<Rightarrow> nat \<Rightarrow> playlist list" where
  "page_items yt channel_id k =
     (case page_answer yt channel_id k of Inl e \<Rightarrow> [] | Inr res \<Rightarrow> items_of res)"

definition more_pages :: "playlists_page \<Rightarrow> bool" where
  "more_pages res = (\<not> (nextPageToken res = None \<or> nextPageToken res = Some []))"

text \<open>
  The first \<open>n + 1\<close> answers are pages, and the last of them is the first one without a
  token.
\<close>

definition pages_end_at :: "youtube \<Rightarrow> string \<Rightarrow> nat \<Rightarrow> bool" where
  "pages_end_at yt channel_id n =
     (\<forall>k\<le>n. \<exists>res. page_answer yt channel_id k = Inr res \<and> (more_pages res \<longleftrightarrow> k < n))"

text \<open>
  Example input: a provider that holds a list of playlists and hands them out page by
  page, of the size asked for; its token is a string as long as the number of pages
  already given.
\<close>

definition paged_youtube :: "playlist list \<Rightarrow> youtube" where
  "paged_youtube all_playlists =
     \<lparr>channels_list = (\<lambda>handle n. Inr \<lparr>ch_items = Some [''UC-paged'']\<rparr>),
      playlists_list = (\<lambda>channel_id n token.
        (let k = (case token of None \<Rightarrow> 0 | Some t \<Rightarrow> length t) in
         Inr \<lparr>pl_items = Some (take n (drop (k * n) all_playlists)),
              nextPageToken =
                (if (k + 1) * n < length all_playlists then Some (replicate (k + 1) (CHR ''x''))
                 else None)\<rparr>)),
      playlist_items_list = (\<lambda>playlist_id n. Inr None)\<rparr>"

definition many_playlists :: "playlist list" where
  "many_playlists = replicate 120 \<lparr>pl_id = ''PL1'', pl_title = ''Lecture Videos''\<rparr>"

subsection \<open>Playlist matcher, channel resolver\<close>

text \<open>
  A desired substring occurs in a title, case set aside; a title is wanted by a list of
  desired substrings; a playlist is selected by the dictionary \<^verbatim>\<open>found_playlists\<close> when its
  title is a key and its identifier the value, so that its videos get listed.
\<close>

definition title_matches :: "string \<Rightarrow> string \<Rightarrow> bool" where
  "title_matches desired title = contains (lower title) (lower desired)"

definition wanted :: "string list \<Rightarrow> string \<Rightarrow> bool" where
  "wanted playlist_titles title = (\<exists>desired\<in>set playlist_titles. title_matches desired title)"

definition selected :: "(string \<times> string) list \<Rightarrow> playlist \<Rightarrow> bool" where
  "selected found pl = ((pl_title pl, pl_id pl) \<in> set found)"

text \<open>The entries one desired substring writes into the dictionary, in order.\<close>

definition hits :: "string \<Rightarrow> playlist list \<Rightarrow> (string \<times> string) list" where
  "hits desired pls =
     map (\<lambda>pl. (pl_title pl, pl_id pl)) (filter (\<lambda>pl. title_matches desired (pl_title pl)) pls)"

text \<open>
  Example inputs: the three playlists of the specification, two playlists of one title, a
  provider that knows no channel, and a site whose course page links into another course.
\<close>

definition three_playlists :: "playlist list" where
  "three_playlists =
     [\<lparr>pl_id = ''PL-lec'', pl_title = ''Lecture Videos''\<rparr>,
      \<lparr>pl_id = ''PL-rec'', pl_title = ''Recitation Videos''\<rparr>,
      \<lparr>pl_id = ''PL-exam'', pl_title = ''Exam Review''\<rparr>]"

definition same_title_playlists :: "playlist list" where
  "same_title_playlists =
     [\<lparr>pl_id = ''PL-2019'', pl_title = ''Lecture Videos''\<rparr>,
      \<lparr>pl_id = ''PL-2020'', pl_title = ''Lecture Videos''\<rparr>]"

definition no_such_channel :: youtube where
  "no_such_channel =
     \<lparr>channels_list = (\<lambda>handle n. Inr \<lparr>ch_items = Some []\<rparr>),
      playlists_list = (\<lambda>channel_id n token. Inr \<lparr>pl_items = None, nextPageToken = None\<rparr>),
      playlist_items_list = (\<lambda>playlist_id n. Inr None)\<rparr>"

definition two_course_site :: site where
  "two_course_site url =
     (if url = ''https://ocw.mit.edu/courses/course-a/'' then
        Inr [(''/courses/course-b/pages/syllabus/'', ''A related course'')]
      else if url = ''https://ocw.mit.edu/courses/course-b/pages/syllabus/'' then
        Inr [(''/courses/course-b/notes.pdf'', ''Lecture notes'')]
      else Inl (ExternalError ''404''))"

section \<open>Verification\<close>

subsection \<open>Ingestion: records, counts, failures, frame\<close>

lemmas eval_defs = run_ingestion_def process_resource_def handle_resource_def
  upload_youtube_audio_with_chapters_def getitem_def str_split_def lstrip_def Let_def

lemma update_fresh: "k \<notin> fst ` set al \<Longrightarrow> AList.update k v al = al @ [(k, v)]"
  by (induction al) auto

lemma dict_update_fresh:
  "distinct (map fst kvs) \<Longrightarrow> fst ` set kvs \<inter> fst ` set d = {} \<Longrightarrow> dict_update d kvs = d @ kvs"
proof (induction kvs arbitrary: d)
  case Nil then show ?case by simp
next
  case (Cons kv kvs)
  obtain k v where kv: "kv = (k, v)" by (cases kv)
  have "k \<notin> fst ` set d" using Cons.prems(2) kv by auto
  then have u: "AList.update k v d = d @ [(k, v)]" by (rule update_fresh)
  have "fst ` set kvs \<inter> fst ` set (d @ [(k, v)]) = {}"
    using Cons.prems kv by auto
  with Cons.IH[of "d @ [(k, v)]"] Cons.prems(1) u kv show ?case by simp
qed

lemma map_of_dict_update_other:
  "k \<notin> fst ` set kvs \<Longrightarrow> map_of (dict_update d kvs) k = map_of d k"
  by (induction d kvs rule: dict_update.induct) (auto simp: update_conv')

lemma process_resource_None_iff:
  "process_resource b r = None \<longleftrightarrow> is_pdf r"
  by (auto simp: process_resource_def handle_resource_def getitem_def is_pdf_def
      split: sum.splits option.splits if_splits prod.splits)

lemma process_resource_status:
  assumes "process_resource b r = Some e"
  shows "map_of e ''status'' \<in> {Some (JStr ''success''), Some (JStr ''failed''), Some (JStr ''skipped'')}"
  using assms
  by (auto simp: process_resource_def handle_resource_def getitem_def update_conv'
      split: sum.splits option.splits if_splits prod.splits)

lemma process_resource_cases:
  assumes "process_resource b r = Some e"
  shows "(\<exists>k c t. e = dict_update r [(''s3_key'', JStr k), (''chapters_key'', c),
                                     (''uploaded_at'', JStr t), (''status'', JStr ''success'')])
       \<or> (\<exists>m. e = dict_update r [(''status'', JStr ''failed''), (''reason'', JStr m)])
       \<or> e = dict_update r [(''status'', JStr ''skipped''), (''reason'', JStr ''unknown type'')]"
  using assms
  by (auto simp: process_resource_def handle_resource_def
      split: sum.splits option.splits if_splits prod.splits)

lemma process_resource_shape:
  assumes "process_resource b r = Some e"
  shows "\<exists>kvs. e = dict_update r kvs \<and> distinct (map fst kvs) \<and> fst ` set kvs \<subseteq> outcome_keys"
proof -
  consider (s) k c t where "e = dict_update r [(''s3_key'', JStr k), (''chapters_key'', c),
                                     (''uploaded_at'', JStr t), (''status'', JStr ''success'')]"
    | (f) m where "e = dict_update r [(''status'', JStr ''failed''), (''reason'', JStr m)]"
    | (k) "e = dict_update r [(''status'', JStr ''skipped''), (''reason'', JStr ''unknown type'')]"
    using process_resource_cases[OF assms] by blast
  then show ?thesis
  proof cases
    case s
    show ?thesis
      by (rule exI[of _ "[(''s3_key'', JStr k), (''chapters_key'', c),
                                     (''uploaded_at'', JStr t), (''status'', JStr ''success'')]"])
         (simp add: s outcome_keys_def)
  next
    case f
    show ?thesis
      by (rule exI[of _ "[(''status'', JStr ''failed''), (''reason'', JStr m)]"])
         (simp add: f outcome_keys_def)
  next
    case k
    show ?thesis
      by (rule exI[of _ "[(''status'', JStr ''skipped''), (''reason'', JStr ''unknown type'')]"])
         (simp add: k outcome_keys_def)
  qed
qed

lemma process_resource_frame:
  assumes "process_resource b r = Some e" and "fst ` set r \<inter> outcome_keys = {}"
  shows "\<exists>added. e = r @ added \<and> fst ` set added \<subseteq> outcome_keys"
proof -
  obtain kvs where kvs: "e = dict_update r kvs" "distinct (map fst kvs)"
      "fst ` set kvs \<subseteq> outcome_keys"
    using process_resource_shape[OF assms(1)] by blast
  have "fst ` set kvs \<inter> fst ` set r = {}" using kvs(3) assms(2) by blast
  then have "e = r @ kvs" using dict_update_fresh kvs(1,2) by blast
  with kvs(3) show ?thesis by blast
qed

lemma ingest_loop_acc:
  "ingest_loop env i rs acc = acc @ ingest_loop env i rs []"
proof (induction rs arbitrary: i acc)
  case Nil then show ?case by simp
next
  case (Cons r rs)
  show ?case
  proof (cases "process_resource (env i) r")
    case None
    then show ?thesis using Cons.IH[of "Suc i" acc] by simp
  next
    case (Some e)
    then show ?thesis using Cons.IH[of "Suc i" "acc @ [e]"] Cons.IH[of "Suc i" "[e]"] by simp
  qed
qed

lemma ingest_loop_Cons:
  "ingest_loop env i (r # rs) [] =
     (case process_resource (env i) r of None \<Rightarrow> [] | Some e \<Rightarrow> [e]) @ ingest_loop env (Suc i) rs []"
proof (cases "process_resource (env i) r")
  case None
  then show ?thesis by simp
next
  case (Some e)
  then show ?thesis using ingest_loop_acc[of env "Suc i" rs "[e]"] by simp
qed

lemma ingest_loop_rel:
  "list_all2 (\<lambda>(j, r) e. process_resource (env j) r = Some e)
     (filter (\<lambda>(j, r). \<not> is_pdf r) (List.enumerate i rs)) (ingest_loop env i rs [])"
proof (induction rs arbitrary: i)
  case Nil then show ?case by simp
next
  case (Cons r rs)
  show ?case using Cons.IH[of "Suc i"] process_resource_None_iff[of "env i" r]
    by (cases "process_resource (env i) r") (simp_all add: ingest_loop_Cons del: ingest_loop.simps(2))
qed

lemma ingest_loop_length:
  "length (ingest_loop env i rs []) = length (filter (\<lambda>r. \<not> is_pdf r) rs)"
proof (induction rs arbitrary: i)
  case Nil then show ?case by simp
next
  case (Cons r rs)
  show ?case using Cons.IH[of "Suc i"] process_resource_None_iff[of "env i" r]
    by (cases "process_resource (env i) r") (simp_all add: ingest_loop_Cons del: ingest_loop.simps(2))
qed

lemma ingest_loop_set:
  "e \<in> set (ingest_loop env i rs []) \<Longrightarrow> \<exists>j r. r \<in> set rs \<and> process_resource (env j) r = Some e"
proof (induction rs arbitrary: i)
  case Nil then show ?case by simp
next
  case (Cons r rs)
  then show ?case
    by (cases "process_resource (env i) r") (fastforce simp: ingest_loop_Cons simp del: ingest_loop.simps(2))+
qed

lemma count_status_ok:
  "\<forall>r\<in>set ps. map_of r ''status'' \<noteq> None \<Longrightarrow>
   count_status s ps = Inr (length (filter (\<lambda>r. map_of r ''status'' = Some (JStr s)) ps))"
  by (induction ps) (auto simp: getitem_def split: option.splits)

lemma ingest_loop_rel':
  "list_all2 (\<lambda>r e. \<exists>j. process_resource (env j) r = Some e)
     (filter (\<lambda>r. \<not> is_pdf r) rs) (ingest_loop env i rs [])"
proof (induction rs arbitrary: i)
  case Nil then show ?case by simp
next
  case (Cons r rs)
  show ?case using Cons.IH[of "Suc i"] process_resource_None_iff[of "env i" r]
    by (cases "process_resource (env i) r") (auto simp: ingest_loop_Cons simp del: ingest_loop.simps(2))
qed

lemma ingest_loop_concat:
  "ingest_loop env i rs [] =
     concat (map (\<lambda>(j, r). case process_resource (env j) r of None \<Rightarrow> [] | Some e \<Rightarrow> [e])
       (List.enumerate i rs))"
  by (induction rs arbitrary: i) (simp_all add: ingest_loop_Cons del: ingest_loop.simps(2))

lemma ingest_loop_has_status:
  assumes "e \<in> set (ingest_loop env i rs [])"
  shows "map_of e ''status'' \<in>
     {Some (JStr ''success''), Some (JStr ''failed''), Some (JStr ''skipped'')}"
  using ingest_loop_set[OF assms] process_resource_status by blast

lemma run_ingestion_eq:
  "run_ingestion env jid ts manifest =
     Inr \<lparr>job_id = jid, ingested_at = ts, num_total = length manifest,
          num_success = length (filter (\<lambda>e. map_of e ''status'' = Some (JStr ''success''))
                                  (ingest_loop env 0 manifest [])),
          num_failed = length (filter (\<lambda>e. map_of e ''status'' = Some (JStr ''failed''))
                                  (ingest_loop env 0 manifest [])),
          resources = ingest_loop env 0 manifest []\<rparr>"
proof -
  have st: "\<forall>e\<in>set (ingest_loop env 0 manifest []). map_of e ''status'' \<noteq> None"
    using ingest_loop_has_status by fastforce
  show ?thesis
    by (simp add: run_ingestion_def Let_def count_status_ok[OF st])
qed

text \<open>
  Claim C2, as amended. Every manifest yields a finalized job. Its records are, in manifest
  order, one record for each resource whose type is not \<open>pdf\<close>; a resource of type \<open>pdf\<close>
  gets no record. Every record has status \<open>success\<close>, \<open>failed\<close> or \<open>skipped\<close>.
  \<open>num_success\<close> and \<open>num_failed\<close> count the records with these statuses, and
  \<open>num_total\<close> is the number of resources of the manifest: the records plus the \<open>pdf\<close>
  resources.
\<close>

theorem run_ingestion_records_and_counts:
  "\<exists>job. run_ingestion env jid ts manifest = Inr job
     \<and> list_all2 (\<lambda>(i, r) e. process_resource (env i) r = Some e)
          (filter (\<lambda>(i, r). \<not> is_pdf r) (List.enumerate 0 manifest)) (resources job)
     \<and> length (resources job) = length (filter (\<lambda>r. \<not> is_pdf r) manifest)
     \<and> (\<forall>e\<in>set (resources job). map_of e ''status'' \<in>
           {Some (JStr ''success''), Some (JStr ''failed''), Some (JStr ''skipped'')})
     \<and> num_total job = length manifest
     \<and> num_total job = length (resources job) + length (filter is_pdf manifest)
     \<and> num_success job =
           length (filter (\<lambda>e. map_of e ''status'' = Some (JStr ''success'')) (resources job))
     \<and> num_failed job =
           length (filter (\<lambda>e. map_of e ''status'' = Some (JStr ''failed'')) (resources job))"
proof -
  have len: "length manifest =
      length (filter (\<lambda>r. \<not> is_pdf r) manifest) + length (filter is_pdf manifest)"
    using sum_length_filter_compl[of is_pdf manifest] by simp
  show ?thesis
    unfolding run_ingestion_eq
    using ingest_loop_rel[of env 0 manifest] ingest_loop_length[of env 0 manifest]
      ingest_loop_has_status[of _ env 0 manifest] len
    by simp
qed

text \<open>
  Claim C10. The record made for a resource agrees with it on every key other than
  \<open>status\<close>, \<open>reason\<close>, \<open>s3_key\<close>, \<open>chapters_key\<close> and \<open>uploaded_at\<close>. A resource
  that has none of these keys is kept whole: the record agrees with it on every field it
  came with, and is the resource followed by added outcome fields.
\<close>

theorem enrichment_preserves_fields:
  "\<exists>job. run_ingestion env jid ts manifest = Inr job \<and>
     list_all2
       (\<lambda>r e. (\<forall>k. k \<notin> outcome_keys \<longrightarrow> map_of e k = map_of r k) \<and>
              (fst ` set r \<inter> outcome_keys = {} \<longrightarrow>
                 (\<forall>k\<in>fst ` set r. map_of e k = map_of r k) \<and>
                 (\<exists>added. e = r @ added \<and> fst ` set added \<subseteq> outcome_keys)))
       (filter (\<lambda>r. \<not> is_pdf r) manifest) (resources job)"
proof -
  have step: "(\<forall>k. k \<notin> outcome_keys \<longrightarrow> map_of e k = map_of r k) \<and>
              (fst ` set r \<inter> outcome_keys = {} \<longrightarrow>
                 (\<forall>k\<in>fst ` set r. map_of e k = map_of r k) \<and>
                 (\<exists>added. e = r @ added \<and> fst ` set added \<subseteq> outcome_keys))"
    if p: "\<exists>j. process_resource (env j) r = Some e" for r e
  proof -
    from p obtain j where pj: "process_resource (env j) r = Some e" by blast
    obtain kvs where kvs: "e = dict_update r kvs" "fst ` set kvs \<subseteq> outcome_keys"
      using process_resource_shape[OF pj] by blast
    have other: "\<forall>k. k \<notin> outcome_keys \<longrightarrow> map_of e k = map_of r k"
      using kvs map_of_dict_update_other by blast
    have "(\<forall>k\<in>fst ` set r. map_of e k = map_of r k) \<and>
          (\<exists>added. e = r @ added \<and> fst ` set added \<subseteq> outcome_keys)"
      if d: "fst ` set r \<inter> outcome_keys = {}"
    proof -
      have "\<forall>k\<in>fst ` set r. map_of e k = map_of r k" using other d by blast
      then show ?thesis using process_resource_frame[OF pj d] by blast
    qed
    with other show ?thesis by blast
  qed
  have "list_all2
       (\<lambda>r e. (\<forall>k. k \<notin> outcome_keys \<longrightarrow> map_of e k = map_of r k) \<and>
              (fst ` set r \<inter> outcome_keys = {} \<longrightarrow>
                 (\<forall>k\<in>fst ` set r. map_of e k = map_of r k) \<and>
                 (\<exists>added. e = r @ added \<and> fst ` set added \<subseteq> outcome_keys)))
       (filter (\<lambda>r. \<not> is_pdf r) manifest) (ingest_loop env 0 manifest [])"
    using ingest_loop_rel'[of env manifest 0] step
    by (rule list_all2_mono)
  then show ?thesis unfolding run_ingestion_eq by simp
qed

lemma upload_key_nonempty:
  "upload_youtube_audio_with_chapters b u ''audio/'' = Inr (k, c) \<Longrightarrow> k \<noteq> []"
  by (auto simp: upload_youtube_audio_with_chapters_def Let_def
      split: jval.splits sum.splits list.splits option.splits if_splits)

lemma process_resource_raised:
  assumes "handle_resource b r = Inl x"
  shows "process_resource b r =
           Some (dict_update r [(''status'', JStr ''failed''), (''reason'', JStr (str_exn x))])"
  using assms by (simp add: process_resource_def)

lemma map_of_failed_record:
  "map_of (dict_update r [(''status'', JStr ''failed''), (''reason'', JStr m)]) ''status''
     = Some (JStr ''failed'')"
  "map_of (dict_update r [(''status'', JStr ''failed''), (''reason'', JStr m)]) ''reason''
     = Some (JStr m)"
  by (simp_all add: update_conv')

lemma video_raises:
  assumes "map_of r ''type'' = Some (JStr ''video'')" and "map_of r ''url'' = Some u"
    and "upload_youtube_audio_with_chapters b u ''audio/'' = Inl x"
  shows "handle_resource b r = Inl x"
  using assms by (simp add: handle_resource_def getitem_def)

lemma video_succeeds:
  assumes "map_of r ''type'' = Some (JStr ''video'')" and "map_of r ''url'' = Some u"
    and "upload_youtube_audio_with_chapters b u ''audio/'' = Inr (k, c)"
  shows "\<exists>d. process_resource b r = Some d \<and> map_of d ''status'' = Some (JStr ''success'')"
  using assms upload_key_nonempty[OF assms(3)]
  by (simp add: process_resource_def handle_resource_def getitem_def update_conv')

text \<open>
  Claim C3, as amended. Every manifest yields a finalized job whose records are the
  outcomes of all items, each processed on its own; an exception raised in the body of
  one item gives that item a record with status \<open>failed\<close> and, as reason, the text of the
  exception. For five video resources of which the third's acquisition raises and the
  others' returns, the job counts 5 in total, 4 successes and 1 failure, and the third
  record is \<open>failed\<close> with the text of the exception as its reason.
\<close>

theorem run_ingestion_isolates_failures:
  "(\<exists>job. run_ingestion env jid ts manifest = Inr job \<and>
       resources job =
         concat (map (\<lambda>(i, r). case process_resource (env i) r of None \<Rightarrow> [] | Some d \<Rightarrow> [d])
                   (List.enumerate 0 manifest)))
   \<and> (\<forall>b r x. handle_resource b r = Inl x \<longrightarrow>
         (\<exists>d. process_resource b r = Some d \<and>
              map_of d ''status'' = Some (JStr ''failed'') \<and>
              map_of d ''reason'' = Some (JStr (str_exn x))))
   \<and> (manifest = [r1, r2, r3, r4, r5] \<and>
       video_item (env 0) r1 (Inr a1) \<and> video_item (env 1) r2 (Inr a2) \<and>
       video_item (env 2) r3 (Inl x3) \<and>
       video_item (env 3) r4 (Inr a4) \<and> video_item (env 4) r5 (Inr a5) \<longrightarrow>
       (\<exists>job. run_ingestion env jid ts manifest = Inr job \<and>
          num_total job = 5 \<and> num_success job = 4 \<and> num_failed job = 1 \<and>
          length (resources job) = 5 \<and>
          map_of (resources job ! 2) ''status'' = Some (JStr ''failed'') \<and>
          map_of (resources job ! 2) ''reason'' = Some (JStr (str_exn x3))))"
proof (intro conjI impI allI)
  show "\<exists>job. run_ingestion env jid ts manifest = Inr job \<and>
       resources job =
         concat (map (\<lambda>(i, r). case process_resource (env i) r of None \<Rightarrow> [] | Some d \<Rightarrow> [d])
                   (List.enumerate 0 manifest))"
    unfolding run_ingestion_eq using ingest_loop_concat[of env 0 manifest] by simp
next
  fix b r x
  assume "handle_resource b r = Inl x"
  then show "\<exists>d. process_resource b r = Some d \<and>
              map_of d ''status'' = Some (JStr ''failed'') \<and>
              map_of d ''reason'' = Some (JStr (str_exn x))"
    by (simp add: process_resource_raised update_conv')
next
  assume a: "manifest = [r1, r2, r3, r4, r5] \<and>
       video_item (env 0) r1 (Inr a1) \<and> video_item (env 1) r2 (Inr a2) \<and>
       video_item (env 2) r3 (Inl x3) \<and>
       video_item (env 3) r4 (Inr a4) \<and> video_item (env 4) r5 (Inr a5)"
  have ok: "\<exists>d. process_resource b r = Some d \<and> map_of d ''status'' = Some (JStr ''success'')"
    if "video_item b r (Inr p)" for b r p
    using that video_succeeds[of r _ b "fst p" "snd p"] by (auto simp: video_item_def)
  obtain d1 where d1: "process_resource (env 0) r1 = Some d1"
      "map_of d1 ''status'' = Some (JStr ''success'')" using a ok by blast
  obtain d2 where d2: "process_resource (env 1) r2 = Some d2"
      "map_of d2 ''status'' = Some (JStr ''success'')" using a ok by blast
  obtain d4 where d4: "process_resource (env 3) r4 = Some d4"
      "map_of d4 ''status'' = Some (JStr ''success'')" using a ok by blast
  obtain d5 where d5: "process_resource (env 4) r5 = Some d5"
      "map_of d5 ''status'' = Some (JStr ''success'')" using a ok by blast
  have "handle_resource (env 2) r3 = Inl x3"
    using a video_raises by (auto simp: video_item_def)
  then obtain d3 where d3: "process_resource (env 2) r3 = Some d3"
      "map_of d3 ''status'' = Some (JStr ''failed'')"
      "map_of d3 ''reason'' = Some (JStr (str_exn x3))"
    by (simp add: process_resource_raised update_conv')
  have m: "manifest = [r1, r2, r3, r4, r5]" using a by simp
  have loop: "ingest_loop env 0 manifest [] = [d1, d2, d3, d4, d5]"
    using d1(1) d2(1) d3(1) d4(1) d5(1) by (simp add: m eval_nat_numeral)
  show "\<exists>job. run_ingestion env jid ts manifest = Inr job \<and>
          num_total job = 5 \<and> num_success job = 4 \<and> num_failed job = 1 \<and>
          length (resources job) = 5 \<and>
          map_of (resources job ! 2) ''status'' = Some (JStr ''failed'') \<and>
          map_of (resources job ! 2) ''reason'' = Some (JStr (str_exn x3))"
    unfolding run_ingestion_eq loop
    by (simp add: m d1 d2 d3 d4 d5)
qed

text \<open>
  Claim C2 as stated fails on a manifest of one \<open>pdf\<close> resource: the job has no record for
  it, and \<open>num_total\<close> is 1 while there are 0 records.
\<close>

theorem pdf_dropped_counterexample:
  "run_ingestion steady_env ''job-1'' ''2025-09-24T20:20:15'' [slides_pdf] =
     Inr \<lparr>job_id = ''job-1'', ingested_at = ''2025-09-24T20:20:15'', num_total = 1,
          num_success = 0, num_failed = 0, resources = []\<rparr>"
  by (simp add: eval_defs ex_defs)

lemma upload_ok_example: "upload_youtube_audio_with_chapters ok_backend
   (JStr (''https://www.youtube.com/watch?v='' @ ''v1'')) ''audio/'' = Inr (''audio/v1.m4a'', None)"
  by (simp add: eval_defs ex_defs)

text \<open>
  Claim C3 as stated fails when the exception raised by the third acquisition has an
  empty text: the reason recorded is the empty string.
\<close>

theorem empty_reason_counterexample:
  "upload_youtube_audio_with_chapters (third_fails_env [] 2)
      (JStr ''https://www.youtube.com/watch?v=v3'') ''audio/'' = Inl (ExternalError []) \<and>
   (case run_ingestion (third_fails_env []) ''job-1'' ''2025-09-24T20:20:15'' five_videos of
      Inl e \<Rightarrow> False
    | Inr job \<Rightarrow>
        num_total job = 5 \<and> num_success job = 4 \<and> num_failed job = 1 \<and>
        map_of (resources job ! 2) ''status'' = Some (JStr ''failed'') \<and>
        map_of (resources job ! 2) ''reason'' = Some (JStr []))"
  by (simp add: eval_defs ex_defs)

text \<open>
  The statement of C2 at a manifest of a \<open>pdf\<close>, a video and a resource of another type.
\<close>

theorem run_ingestion_records_and_counts_witness:
  "\<exists>job. run_ingestion steady_env ''job-1'' ''2025-09-24T20:20:15'' mixed_manifest = Inr job \<and>
     length (resources job) = 2 \<and> num_total job = 3 \<and>
     (\<forall>e\<in>set (resources job). map_of e ''status'' \<in>
           {Some (JStr ''success''), Some (JStr ''failed''), Some (JStr ''skipped'')})"
proof -
  have n: "length (filter (\<lambda>r. \<not> is_pdf r) mixed_manifest) = 2" "length mixed_manifest = 3"
    by (simp_all add: is_pdf_def ex_defs)
  show ?thesis
    using run_ingestion_records_and_counts
      [of steady_env "''job-1''" "''2025-09-24T20:20:15''" mixed_manifest]
    unfolding n by blast
qed

text \<open>
  The statement of C3 at five videos whose third acquisition raises \<open>HTTP Error 403\<close>.
\<close>

theorem run_ingestion_isolates_failures_witness:
  "(five_videos = [video ''v1'', video ''v2'', video ''v3'', video ''v4'', video ''v5''] \<and>
    video_item (third_fails_env ''HTTP Error 403'' 0) (video ''v1'') (Inr (''audio/v1.m4a'', None)) \<and>
    video_item (third_fails_env ''HTTP Error 403'' 1) (video ''v2'') (Inr (''audio/v2.m4a'', None)) \<and>
    video_item (third_fails_env ''HTTP Error 403'' 2) (video ''v3'')
      (Inl (ExternalError ''HTTP Error 403'')) \<and>
    video_item (third_fails_env ''HTTP Error 403'' 3) (video ''v4'') (Inr (''audio/v4.m4a'', None)) \<and>
    video_item (third_fails_env ''HTTP Error 403'' 4) (video ''v5'') (Inr (''audio/v5.m4a'', None))) \<and>
   (\<exists>job. run_ingestion (third_fails_env ''HTTP Error 403'') ''job-1'' ''2025-09-24T20:20:15''
             five_videos = Inr job \<and>
      num_total job = 5 \<and> num_success job = 4 \<and> num_failed job = 1 \<and>
      length (resources job) = 5 \<and>
      map_of (resources job ! 2) ''status'' = Some (JStr ''failed'') \<and>
      map_of (resources job ! 2) ''reason'' = Some (JStr ''HTTP Error 403''))"
proof -
  have h: "five_videos = [video ''v1'', video ''v2'', video ''v3'', video ''v4'', video ''v5''] \<and>
    video_item (third_fails_env ''HTTP Error 403'' 0) (video ''v1'') (Inr (''audio/v1.m4a'', None)) \<and>
    video_item (third_fails_env ''HTTP Error 403'' 1) (video ''v2'') (Inr (''audio/v2.m4a'', None)) \<and>
    video_item (third_fails_env ''HTTP Error 403'' 2) (video ''v3'')
      (Inl (ExternalError ''HTTP Error 403'')) \<and>
    video_item (third_fails_env ''HTTP Error 403'' 3) (video ''v4'') (Inr (''audio/v4.m4a'', None)) \<and>
    video_item (third_fails_env ''HTTP Error 403'' 4) (video ''v5'') (Inr (''audio/v5.m4a'', None))"
    by (simp add: video_item_def eval_defs ex_defs)
  from run_ingestion_isolates_failures
    [of "third_fails_env ''HTTP Error 403''" "''job-1''" "''2025-09-24T20:20:15''" five_videos
        "video ''v1''" "video ''v2''" "video ''v3''" "video ''v4''" "video ''v5''"
        "(''audio/v1.m4a'', None)" "(''audio/v2.m4a'', None)" "ExternalError ''HTTP Error 403''"
        "(''audio/v4.m4a'', None)" "(''audio/v5.m4a'', None)"]
  have "\<exists>job. run_ingestion (third_fails_env ''HTTP Error 403'') ''job-1'' ''2025-09-24T20:20:15''
             five_videos = Inr job \<and>
      num_total job = 5 \<and> num_success job = 4 \<and> num_failed job = 1 \<and>
      length (resources job) = 5 \<and>
      map_of (resources job ! 2) ''status'' = Some (JStr ''failed'') \<and>
      map_of (resources job ! 2) ''reason'' = Some (JStr (str_exn (ExternalError ''HTTP Error 403'')))"
    using h by blast
  then show ?thesis using h by simp
qed

text \<open>
  The statement of C10 at the same mixed manifest.
\<close>

theorem enrichment_preserves_fields_witness:
  "fst ` set (video ''abc'') \<inter> outcome_keys = {} \<and>
   fst ` set [(''type'', JStr ''audio'')] \<inter> outcome_keys = {} \<and>
   (\<exists>job. run_ingestion steady_env ''job-1'' ''2025-09-24T20:20:15'' mixed_manifest = Inr job \<and>
     list_all2 (\<lambda>r e. (\<forall>k\<in>fst ` set r. map_of e k = map_of r k) \<and>
                      (\<exists>added. e = r @ added \<and> fst ` set added \<subseteq> outcome_keys))
       [video ''abc'', [(''type'', JStr ''audio'')]] (resources job))"
proof -
  have h: "fst ` set (video ''abc'') \<inter> outcome_keys = {}"
      "fst ` set [(''type'', JStr ''audio'')] \<inter> outcome_keys = {}"
    by (simp_all add: outcome_keys_def ex_defs)
  have f: "filter (\<lambda>r. \<not> is_pdf r) mixed_manifest = [video ''abc'', [(''type'', JStr ''audio'')]]"
    by (simp add: is_pdf_def ex_defs)
  obtain job where j: "run_ingestion steady_env ''job-1'' ''2025-09-24T20:20:15'' mixed_manifest
        = Inr job"
    and l: "list_all2
       (\<lambda>r e. (\<forall>k. k \<notin> outcome_keys \<longrightarrow> map_of e k = map_of r k) \<and>
              (fst ` set r \<inter> outcome_keys = {} \<longrightarrow>
                 (\<forall>k\<in>fst ` set r. map_of e k = map_of r k) \<and>
                 (\<exists>added. e = r @ added \<and> fst ` set added \<subseteq> outcome_keys)))
       [video ''abc'', [(''type'', JStr ''audio'')]] (resources job)"
    using enrichment_preserves_fields[of steady_env "''job-1''" "''2025-09-24T20:20:15''"
        mixed_manifest] unfolding f by blast
  have "list_all2 (\<lambda>r e. (\<forall>k\<in>fst ` set r. map_of e k = map_of r k) \<and>
                      (\<exists>added. e = r @ added \<and> fst ` set added \<subseteq> outcome_keys))
       [video ''abc'', [(''type'', JStr ''audio'')]] (resources job)"
    using l h by (auto simp: list_all2_Cons1)
  with j h show ?thesis by blast
qed

subsection \<open>Crawler: string tests, invariants, termination\<close>

text \<open>The string tests of the model are the ones of the program.\<close>

lemma startswith_iff: "startswith s p \<longleftrightarrow> (\<exists>t. s = p @ t)"
  by (induction s p rule: startswith.induct) auto

lemma endswith_iff: "endswith s suf \<longleftrightarrow> (\<exists>p. s = p @ suf)"
proof -
  have "endswith s suf \<longleftrightarrow> (\<exists>t. rev s = rev suf @ t)"
    by (simp add: endswith_def startswith_iff)
  also have "\<dots> \<longleftrightarrow> (\<exists>p. s = p @ suf)"
  proof
    assume "\<exists>t. rev s = rev suf @ t"
    then obtain t where "rev s = rev suf @ t" by blast
    then have "s = rev t @ suf" by (metis rev_append rev_rev_ident)
    then show "\<exists>p. s = p @ suf" by blast
  next
    assume "\<exists>p. s = p @ suf"
    then show "\<exists>t. rev s = rev suf @ t" by auto
  qed
  finally show ?thesis .
qed

lemma contains_iff: "contains s sub \<longleftrightarrow> (\<exists>p q. s = p @ sub @ q)"
proof (induction s)
  case Nil
  then show ?case by auto
next
  case (Cons c cs)
  show ?case
  proof
    assume "contains (c # cs) sub"
    then consider "startswith (c # cs) sub" | "contains cs sub" by auto
    then show "\<exists>p q. c # cs = p @ sub @ q"
    proof cases
      case 1
      then obtain t where "c # cs = sub @ t" using startswith_iff by blast
      then have "c # cs = [] @ sub @ t" by simp
      then show ?thesis by blast
    next
      case 2
      then obtain p q where "cs = p @ sub @ q" using Cons.IH by blast
      then have "c # cs = (c # p) @ sub @ q" by simp
      then show ?thesis by blast
    qed
  next
    assume "\<exists>p q. c # cs = p @ sub @ q"
    then obtain p q where pq: "c # cs = p @ sub @ q" by blast
    show "contains (c # cs) sub"
    proof (cases p)
      case Nil
      then have "startswith (c # cs) sub" using pq startswith_iff by auto
      then show ?thesis by simp
    next
      case (Cons x p')
      then have "cs = p' @ sub @ q" using pq by simp
      then have "contains cs sub" using Cons.IH by blast
      then show ?thesis by simp
    qed
  qed
qed

lemma crawl_invariant:
  assumes fail: "\<forall>url st e. I st \<longrightarrow> url \<notin> visited st \<longrightarrow> site url = Inl e \<longrightarrow>
            I (st\<lparr>visited := insert url (visited st), fetched := fetched st @ [url]\<rparr>)"
    and ok: "\<forall>url st anchors. I st \<longrightarrow> url \<notin> visited st \<longrightarrow> site url = Inr anchors \<longrightarrow>
            I (st\<lparr>visited := insert url (visited st), fetched := fetched st @ [url],
                  results := find_pdfs clock c url anchors (results st)\<rparr>)"
  shows "I st \<Longrightarrow> scrape_page site clock c d url st = Some st' \<Longrightarrow> I st'"
    and "I st \<Longrightarrow> recurse_subpages site clock c d as st = Some st' \<Longrightarrow> I st'"
  using fail ok
proof (induction site clock c d url st and site clock c d as st arbitrary: st' and st'
    rule: scrape_page_recurse_subpages.induct)
  case (1 site clock c url st)
  then show ?case by simp
next
  case (2 site clock c depth url st)
  show ?case
  proof (cases "url \<in> visited st")
    case True
    with "2.prems"(1,2) show ?thesis by simp
  next
    case False
    let ?st1 = "st\<lparr>visited := insert url (visited st), fetched := fetched st @ [url]\<rparr>"
    show ?thesis
    proof (cases "site url")
      case (Inl e)
      have "I ?st1" using "2.prems"(3) "2.prems"(1) False Inl by blast
      with "2.prems"(2) False Inl show ?thesis by (simp add: Let_def)
    next
      case (Inr anchors)
      let ?st2 = "?st1\<lparr>results := find_pdfs clock c url anchors (results ?st1)\<rparr>"
      have "I (st\<lparr>visited := insert url (visited st), fetched := fetched st @ [url],
                  results := find_pdfs clock c url anchors (results st)\<rparr>)"
        using "2.prems"(4) "2.prems"(1) False Inr by blast
      then have inv2: "I ?st2" by simp
      have run: "recurse_subpages site clock c depth anchors ?st2 = Some st'"
        using "2.prems"(2) False Inr by (simp add: Let_def)
      show ?thesis
        using "2.IH"[OF False refl Inr inv2 run "2.prems"(3,4)] .
    qed
  qed
next
  case (3 site clock c depth st)
  then show ?case by simp
next
  case (4 site clock c depth a as st)
  show ?case
  proof (cases "startswith (fst a) ''/courses/'' \<and> contains (fst a) ''/pages/''")
    case False
    have "recurse_subpages site clock c depth as st = Some st'"
      using "4.prems"(2) False by auto
    from "4.IH"(4)[OF False "4.prems"(1) this "4.prems"(3,4)] show ?thesis .
  next
    case True
    let ?u = "''https://ocw.mit.edu'' @ fst a"
    show ?thesis
    proof (cases "?u \<in> visited st")
      case v: True
      have "recurse_subpages site clock c depth as st = Some st'"
        using "4.prems"(2) True v by (simp add: Let_def)
      from "4.IH"(3)[OF True refl _ "4.prems"(1) this "4.prems"(3,4)] v show ?thesis by simp
    next
      case nv: False
      then obtain st1 where s1: "scrape_page site clock c depth ?u st = Some st1"
        and s2: "recurse_subpages site clock c depth as st1 = Some st'"
        using "4.prems"(2) True by (auto simp: Let_def split: option.splits)
      have "I st1" using "4.IH"(1)[OF True refl nv "4.prems"(1) s1 "4.prems"(3,4)] .
      then show ?thesis using "4.IH"(2)[OF True refl nv s1 _ s2 "4.prems"(3,4)] by simp
    qed
  qed
qed

lemma crawl_inv_from_start:
  assumes "I \<lparr>visited = {}, results = [], fetched = []\<rparr>"
    and "\<forall>url st e. I st \<longrightarrow> url \<notin> visited st \<longrightarrow> site url = Inl e \<longrightarrow>
            I (st\<lparr>visited := insert url (visited st), fetched := fetched st @ [url]\<rparr>)"
    and "\<forall>url st anchors. I st \<longrightarrow> url \<notin> visited st \<longrightarrow> site url = Inr anchors \<longrightarrow>
            I (st\<lparr>visited := insert url (visited st), fetched := fetched st @ [url],
                  results := find_pdfs clock c url anchors (results st)\<rparr>)"
    and "crawl site clock depth c = Some st'"
  shows "I st'"
  using crawl_invariant(1)[OF assms(2,3,1)] assms(4)
  by (simp add: crawl_def Let_def)

lemma crawl_fetch_inv:
  assumes "crawl site clock depth course_handle = Some st"
  shows "fetch_inv st"
proof -
  have i0: "fetch_inv \<lparr>visited = {}, results = [], fetched = []\<rparr>"
    by (simp add: fetch_inv_def)
  have i1: "\<forall>url st e. fetch_inv st \<longrightarrow> url \<notin> visited st \<longrightarrow> site url = Inl e \<longrightarrow>
            fetch_inv (st\<lparr>visited := insert url (visited st), fetched := fetched st @ [url]\<rparr>)"
    by (auto simp: fetch_inv_def)
  have i2: "\<forall>url st anchors. fetch_inv st \<longrightarrow> url \<notin> visited st \<longrightarrow> site url = Inr anchors \<longrightarrow>
            fetch_inv (st\<lparr>visited := insert url (visited st), fetched := fetched st @ [url],
                  results := find_pdfs clock course_handle url anchors (results st)\<rparr>)"
    by (auto simp: fetch_inv_def)
  show ?thesis using crawl_inv_from_start[OF i0 i1 i2 assms] .
qed

lemma visited_mono:
  "scrape_page site clock c d url st = Some st' \<Longrightarrow> visited st \<subseteq> visited st'"
  "recurse_subpages site clock c d as st = Some st' \<Longrightarrow> visited st \<subseteq> visited st'"
proof -
  let ?I = "\<lambda>s. visited st \<subseteq> visited s"
  have f: "\<forall>url s e. ?I s \<longrightarrow> url \<notin> visited s \<longrightarrow> site url = Inl e \<longrightarrow>
            ?I (s\<lparr>visited := insert url (visited s), fetched := fetched s @ [url]\<rparr>)"
    by auto
  have k: "\<forall>url s anchors. ?I s \<longrightarrow> url \<notin> visited s \<longrightarrow> site url = Inr anchors \<longrightarrow>
            ?I (s\<lparr>visited := insert url (visited s), fetched := fetched s @ [url],
                  results := find_pdfs clock c url anchors (results s)\<rparr>)"
    by auto
  show "scrape_page site clock c d url st = Some st' \<Longrightarrow> visited st \<subseteq> visited st'"
    using crawl_invariant(1)[of ?I site clock c st d url st', OF f k] by simp
  show "recurse_subpages site clock c d as st = Some st' \<Longrightarrow> visited st \<subseteq> visited st'"
    using crawl_invariant(2)[of ?I site clock c st d as st', OF f k] by simp
qed

lemma scrape_page_marks:
  assumes "scrape_page site clock c d url st = Some st'"
  shows "url \<in> visited st'"
proof (cases d)
  case 0
  with assms show ?thesis by simp
next
  case (Suc n)
  show ?thesis
  proof (cases "url \<in> visited st")
    case True
    with assms Suc show ?thesis by simp
  next
    case False
    let ?st1 = "st\<lparr>visited := insert url (visited st), fetched := fetched st @ [url]\<rparr>"
    show ?thesis
    proof (cases "site url")
      case (Inl e)
      with assms Suc False show ?thesis by (auto simp: Let_def)
    next
      case (Inr anchors)
      let ?st2 = "?st1\<lparr>results := find_pdfs clock c url anchors (results ?st1)\<rparr>"
      have "recurse_subpages site clock c n anchors ?st2 = Some st'"
        using assms Suc False Inr by (simp add: Let_def)
      from visited_mono(2)[OF this] show ?thesis by auto
    qed
  qed
qed

lemma recurse_marks:
  "recurse_subpages site clock c d as st = Some st' \<Longrightarrow> a \<in> set as \<Longrightarrow> follows a \<Longrightarrow>
   ''https://ocw.mit.edu'' @ fst a \<in> visited st'"
proof (induction as arbitrary: st)
  case Nil
  then show ?case by simp
next
  case (Cons b bs)
  let ?u = "''https://ocw.mit.edu'' @ fst b"
  show ?case
  proof (cases "follows b")
    case False
    then have r: "recurse_subpages site clock c d bs st = Some st'"
      using Cons.prems(1) by (auto simp: follows_def)
    have "a \<in> set bs" using Cons.prems(2,3) False by auto
    from Cons.IH[OF r this Cons.prems(3)] show ?thesis .
  next
    case True
    show ?thesis
    proof (cases "?u \<in> visited st")
      case v: True
      have r: "recurse_subpages site clock c d bs st = Some st'"
        using Cons.prems(1) True v by (simp add: follows_def Let_def)
      show ?thesis
      proof (cases "a = b")
        case True
        then show ?thesis using v visited_mono(2)[OF r] by auto
      next
        case False
        then have "a \<in> set bs" using Cons.prems(2) by simp
        from Cons.IH[OF r this Cons.prems(3)] show ?thesis .
      qed
    next
      case nv: False
      obtain st1 where s1: "scrape_page site clock c d ?u st = Some st1"
        and r: "recurse_subpages site clock c d bs st1 = Some st'"
        using Cons.prems(1) True nv by (auto simp: follows_def Let_def split: option.splits)
      show ?thesis
      proof (cases "a = b")
        case True
        then show ?thesis using scrape_page_marks[OF s1] visited_mono(2)[OF r] by auto
      next
        case False
        then have "a \<in> set bs" using Cons.prems(2) by simp
        from Cons.IH[OF r this Cons.prems(3)] show ?thesis .
      qed
    qed
  qed
qed

text \<open>
  Claim C4. In every crawl that returns, no URL is requested twice, the URLs requested
  are the visited set, and the number of requests is the size of the visited set.
\<close>

theorem no_url_fetched_twice:
  assumes "crawl site clock depth course_handle = Some st"
  shows "distinct (fetched st) \<and> set (fetched st) = visited st \<and>
         length (fetched st) = card (visited st)"
proof -
  have "distinct (fetched st) \<and> set (fetched st) = visited st"
    using crawl_fetch_inv[OF assms] by (simp add: fetch_inv_def)
  then show ?thesis using distinct_card by fastforce
qed

lemma crawl_returns_aux:
  assumes fin: "finite P" and leaf: "\<And>u. u \<notin> P \<Longrightarrow> out_links site u = []"
  shows "card (P - visited st) < d \<Longrightarrow>
           \<exists>st'. scrape_page site clock c d url st = Some st' \<and> visited st \<subseteq> visited st'"
    and "card (P - visited st) < d \<or> sub_links as = [] \<Longrightarrow>
           \<exists>st'. recurse_subpages site clock c d as st = Some st' \<and> visited st \<subseteq> visited st'"
  using leaf
proof (induction site clock c d url st and site clock c d as st
    rule: scrape_page_recurse_subpages.induct)
  case (1 site clock c url st)
  then show ?case by simp
next
  case (2 site clock c depth url st)
  show ?case
  proof (cases "url \<in> visited st")
    case True
    then show ?thesis by simp
  next
    case False
    let ?st1 = "st\<lparr>visited := insert url (visited st), fetched := fetched st @ [url]\<rparr>"
    show ?thesis
    proof (cases "site url")
      case (Inl e)
      with False show ?thesis by (auto simp: Let_def)
    next
      case (Inr anchors)
      let ?st2 = "?st1\<lparr>results := find_pdfs clock c url anchors (results ?st1)\<rparr>"
      have pre: "card (P - visited ?st2) < depth \<or> sub_links anchors = []"
      proof (cases "url \<in> P")
        case True
        then have "url \<in> P - visited st" using False by simp
        then have "card (P - insert url (visited st)) < card (P - visited st)"
          using fin by (metis Diff_insert card_Diff1_less finite_Diff)
        then show ?thesis using "2.prems"(1) by simp
      next
        case False
        then have "out_links site url = []" using "2.prems"(2) by simp
        then show ?thesis using Inr by (simp add: out_links_def)
      qed
      obtain st' where r: "recurse_subpages site clock c depth anchors ?st2 = Some st'"
        and sub: "visited ?st2 \<subseteq> visited st'"
        using "2.IH"[OF False refl Inr pre "2.prems"(2)] by blast
      have "scrape_page site clock c (Suc depth) url st = Some st'"
        using False Inr r by (simp add: Let_def)
      moreover have "visited st \<subseteq> visited st'" using sub by auto
      ultimately show ?thesis by blast
    qed
  qed
next
  case (3 site clock c depth st)
  then show ?case by simp
next
  case (4 site clock c depth a as st)
  show ?case
  proof (cases "startswith (fst a) ''/courses/'' \<and> contains (fst a) ''/pages/''")
    case False
    then have "sub_links (a # as) = sub_links as" by (simp add: sub_links_def follows_def)
    then have "card (P - visited st) < depth \<or> sub_links as = []" using "4.prems"(1) by simp
    from "4.IH"(4)[OF False this "4.prems"(2)] False show ?thesis by auto
  next
    case True
    then have "sub_links (a # as) \<noteq> []" by (simp add: sub_links_def follows_def)
    then have lt: "card (P - visited st) < depth" using "4.prems"(1) by simp
    let ?u = "''https://ocw.mit.edu'' @ fst a"
    show ?thesis
    proof (cases "?u \<in> visited st")
      case v: True
      have "card (P - visited st) < depth \<or> sub_links as = []" using lt by simp
      from "4.IH"(3)[OF True refl _ this "4.prems"(2)] v True show ?thesis by (simp add: Let_def)
    next
      case nv: False
      obtain st1 where s1: "scrape_page site clock c depth ?u st = Some st1"
        and m1: "visited st \<subseteq> visited st1"
        using "4.IH"(1)[OF True refl nv lt "4.prems"(2)] by blast
      have "P - visited st1 \<subseteq> P - visited st" using m1 by blast
      then have "card (P - visited st1) \<le> card (P - visited st)"
        using fin by (simp add: card_mono)
      then have "card (P - visited st1) < depth \<or> sub_links as = []" using lt by simp
      from "4.IH"(2)[OF True refl nv s1 this "4.prems"(2)]
      obtain st' where s2: "recurse_subpages site clock c depth as st1 = Some st'"
        and m2: "visited st1 \<subseteq> visited st'" by blast
      have "recurse_subpages site clock c depth (a # as) st = Some st'"
        using True nv s1 s2 by (simp add: Let_def)
      then show ?thesis using m1 m2 by blast
    qed
  qed
qed

text \<open>
  Claim C5. On a finite site graph the crawl returns, cycles or not: when the pages that
  carry a link the crawler follows all lie in a finite set \<open>P\<close>, every depth of recursion
  above the size of \<open>P\<close> suffices. The interpreter's own recursion limit is not part of
  the model.
\<close>

theorem crawl_terminates:
  assumes "finite P" and "\<forall>u. u \<notin> P \<longrightarrow> out_links site u = []"
  shows "\<forall>depth. card P < depth \<longrightarrow> (\<exists>st. crawl site clock depth course_handle = Some st)"
proof (intro allI impI)
  fix depth
  assume "card P < depth"
  then have "card (P - visited \<lparr>visited = {}, results = [], fetched = []\<rparr>) < depth"
    by simp
  from crawl_returns_aux(1)[OF assms(1) _ this, of site clock course_handle] assms(2)
  show "\<exists>st. crawl site clock depth course_handle = Some st"
    by (auto simp: crawl_def Let_def)
qed

lemma emitted_for_pdf_resource: "emitted_for (url, a) (pdf_resource c url now a)"
  by (cases a) (simp add: emitted_for_def pdf_resource_def absolute_url_def Let_def)

lemma find_pdfs_emits:
  "list_all2 emitted_for xs res \<Longrightarrow>
   list_all2 emitted_for (xs @ map (Pair url) (filter pdf_anchor as)) (find_pdfs clock c url as res)"
proof (induction as arbitrary: xs res)
  case Nil
  then show ?case by simp
next
  case (Cons a as)
  show ?case
  proof (cases "pdf_anchor a")
    case True
    have "list_all2 emitted_for (xs @ [(url, a)]) (res @ [pdf_resource c url (clock (length res)) a])"
      using Cons.prems emitted_for_pdf_resource by (simp add: list_all2_appendI)
    from Cons.IH[OF this] True show ?thesis by (simp add: pdf_anchor_def)
  next
    case False
    with Cons.IH[OF Cons.prems] show ?thesis by (simp add: pdf_anchor_def)
  qed
qed

lemma absolute_url_http: "startswith (absolute_url href) ''http''"
  by (simp add: absolute_url_def)

text \<open>
  Claim C9. The resources a crawl returns are, in order, one for each anchor of a fetched
  page whose \<open>href\<close> ends in the four characters \<open>.pdf\<close>, page after page in the order
  of the requests;
  each has type \<open>pdf\<close>, the subtype of its anchor text, the page it was found on, and a
  \<open>url\<close> that starts with \<open>http\<close>: the \<open>href\<close> itself when it starts so, the site
  origin followed by the \<open>href\<close> otherwise.
\<close>

theorem pdf_links_emitted:
  assumes "crawl site clock depth course_handle = Some st"
  shows "list_all2 emitted_for (concat (map (page_pdf_anchors site) (fetched st))) (results st) \<and>
         (\<forall>d\<in>set (results st). map_of d ''type'' = Some (JStr ''pdf'') \<and>
            (\<exists>u. map_of d ''url'' = Some (JStr u) \<and> startswith u ''http'')) \<and>
         (\<forall>a. pdf_anchor a \<longleftrightarrow> (\<exists>p. fst a = p @ ''.pdf''))"
proof -
  have i0: "emit_inv site \<lparr>visited = {}, results = [], fetched = []\<rparr>"
    by (simp add: emit_inv_def)
  have i1: "\<forall>url s e. emit_inv site s \<longrightarrow> url \<notin> visited s \<longrightarrow> site url = Inl e \<longrightarrow>
      emit_inv site (s\<lparr>visited := insert url (visited s), fetched := fetched s @ [url]\<rparr>)"
    by (simp add: emit_inv_def page_pdf_anchors_def)
  have i2: "\<forall>url s anchors. emit_inv site s \<longrightarrow> url \<notin> visited s \<longrightarrow> site url = Inr anchors \<longrightarrow>
      emit_inv site (s\<lparr>visited := insert url (visited s), fetched := fetched s @ [url],
                  results := find_pdfs clock course_handle url anchors (results s)\<rparr>)"
    using find_pdfs_emits by (simp add: emit_inv_def page_pdf_anchors_def)
  have "emit_inv site st" using crawl_inv_from_start[OF i0 i1 i2 assms] .
  then have inv: "list_all2 emitted_for (concat (map (page_pdf_anchors site) (fetched st)))
      (results st)" by (simp add: emit_inv_def)
  have "map_of d ''type'' = Some (JStr ''pdf'') \<and>
            (\<exists>u. map_of d ''url'' = Some (JStr u) \<and> startswith u ''http'')"
    if "d \<in> set (results st)" for d
  proof -
    from that obtain i where i: "i < length (results st)" "results st ! i = d"
      by (auto simp: in_set_conv_nth)
    with inv have "emitted_for (concat (map (page_pdf_anchors site) (fetched st)) ! i) d"
      by (auto simp: list_all2_conv_all_nth)
    then show ?thesis using absolute_url_http by (auto simp: emitted_for_def)
  qed
  moreover have "\<forall>a. pdf_anchor a \<longleftrightarrow> (\<exists>p. fst a = p @ ''.pdf'')"
    by (simp add: pdf_anchor_def endswith_iff)
  ultimately show ?thesis using inv by blast
qed

lemma cyclic_site_fetched:
  "map_option fetched (crawl cyclic_site tick 4 ''algo'') =
     Some [''https://ocw.mit.edu/courses/algo/'', ''https://ocw.mit.edu/courses/algo/pages/a/'',
           ''https://ocw.mit.edu/courses/algo/pages/b/'']"
  by (simp add: crawl_def cyclic_site_def eval_nat_numeral endswith_def Let_def)

lemma cyclic_site_urls:
  "map_option (\<lambda>st. map (\<lambda>d. map_of d ''url'') (results st)) (crawl cyclic_site tick 4 ''algo'') =
     Some [Some (JStr ''https://ocw.mit.edu/courses/algo/slides1.pdf''),
           Some (JStr ''https://example.org/handout.pdf'')]"
  by (simp add: crawl_def cyclic_site_def eval_nat_numeral endswith_def Let_def pdf_resource_def)

lemma cyclic_site_leaves: "\<forall>u. u \<notin> cyclic_pages \<longrightarrow> out_links cyclic_site u = []"
  by (simp add: cyclic_pages_def out_links_def cyclic_site_def)

lemma cyclic_pages_card: "finite cyclic_pages" "card cyclic_pages = 3"
  by (simp_all add: cyclic_pages_def)

text \<open>
  The statement of C5 at a site whose pages \<open>a\<close> and \<open>b\<close> link to each other.
\<close>

theorem crawl_terminates_witness:
  "finite cyclic_pages \<and> card cyclic_pages < 4 \<and>
   out_links cyclic_site ''https://ocw.mit.edu/courses/algo/pages/b/'' =
     [''https://ocw.mit.edu/courses/algo/pages/a/''] \<and>
   out_links cyclic_site ''https://ocw.mit.edu/courses/algo/pages/a/'' =
     [''https://ocw.mit.edu/courses/algo/pages/b/''] \<and>
   (\<exists>st. crawl cyclic_site tick 4 ''algo'' = Some st)"
proof -
  have "\<exists>st. crawl cyclic_site tick 4 ''algo'' = Some st"
    using crawl_terminates[OF cyclic_pages_card(1) cyclic_site_leaves, of tick "''algo''"]
      cyclic_pages_card(2) by simp
  moreover have "out_links cyclic_site ''https://ocw.mit.edu/courses/algo/pages/b/'' =
     [''https://ocw.mit.edu/courses/algo/pages/a/'']"
    by (simp add: out_links_def cyclic_site_def sub_links_def follows_def)
  moreover have "out_links cyclic_site ''https://ocw.mit.edu/courses/algo/pages/a/'' =
     [''https://ocw.mit.edu/courses/algo/pages/b/'']"
    by (simp add: out_links_def cyclic_site_def sub_links_def follows_def)
  ultimately show ?thesis using cyclic_pages_card by simp
qed

text \<open>
  The statement of C4 at the same site: three requests, three visited pages.
\<close>

theorem no_url_fetched_twice_witness:
  "\<exists>st. crawl cyclic_site tick 4 ''algo'' = Some st \<and>
     fetched st = [''https://ocw.mit.edu/courses/algo/'',
       ''https://ocw.mit.edu/courses/algo/pages/a/'', ''https://ocw.mit.edu/courses/algo/pages/b/''] \<and>
     distinct (fetched st) \<and> set (fetched st) = visited st \<and>
     length (fetched st) = card (visited st)"
proof -
  from cyclic_site_fetched obtain st where st: "crawl cyclic_site tick 4 ''algo'' = Some st"
    and f: "fetched st = [''https://ocw.mit.edu/courses/algo/'',
       ''https://ocw.mit.edu/courses/algo/pages/a/'', ''https://ocw.mit.edu/courses/algo/pages/b/'']"
    unfolding map_option_eq_Some by blast
  from no_url_fetched_twice[OF st] st f show ?thesis by blast
qed

text \<open>
  The statement of C9 at the same site: of the anchors \<open>slides1.pdf\<close>, \<open>scan.PDF\<close> and
  \<open>handout.pdf\<close>, the first and the last are emitted.
\<close>

theorem pdf_links_emitted_witness:
  "\<exists>st. crawl cyclic_site tick 4 ''algo'' = Some st \<and>
     map (\<lambda>d. map_of d ''url'') (results st) =
       [Some (JStr ''https://ocw.mit.edu/courses/algo/slides1.pdf''),
        Some (JStr ''https://example.org/handout.pdf'')] \<and>
     list_all2 emitted_for (concat (map (page_pdf_anchors cyclic_site) (fetched st))) (results st) \<and>
     (\<forall>d\<in>set (results st). map_of d ''type'' = Some (JStr ''pdf'') \<and>
            (\<exists>u. map_of d ''url'' = Some (JStr u) \<and> startswith u ''http''))"
proof -
  have "\<exists>st. crawl cyclic_site tick 4 ''algo'' = Some st \<and>
     map (\<lambda>d. map_of d ''url'') (results st) =
       [Some (JStr ''https://ocw.mit.edu/courses/algo/slides1.pdf''),
        Some (JStr ''https://example.org/handout.pdf'')]"
    using cyclic_site_urls unfolding map_option_eq_Some .
  then obtain st where st: "crawl cyclic_site tick 4 ''algo'' = Some st"
    and u: "map (\<lambda>d. map_of d ''url'') (results st) =
       [Some (JStr ''https://ocw.mit.edu/courses/algo/slides1.pdf''),
        Some (JStr ''https://example.org/handout.pdf'')]"
    by (elim exE conjE)
  show ?thesis
    by (rule exI[of _ st]) (use pdf_links_emitted[OF st] st u in simp)
qed

subsection \<open>Playlist enumerator\<close>

lemma playlists_loop_run:
  assumes "pages_end_at yt cid n"
  shows "k \<le> n \<Longrightarrow>
     playlists_loop yt cid acc (page_token yt cid k) reqs =
       Some (Inr (acc @ concat (map (page_items yt cid) [k..<Suc n]),
                  reqs @ map (\<lambda>j. (cid, 50, page_token yt cid j)) [k..<Suc n]))"
proof (induction "n - k" arbitrary: k acc reqs)
  case 0
  then have kn: "k = n" by simp
  have "\<exists>res. page_answer yt cid n = Inr res \<and> (more_pages res \<longleftrightarrow> n < n)"
    using assms unfolding pages_end_at_def by (meson order_refl)
  then obtain res where res: "page_answer yt cid n = Inr res" "\<not> more_pages res"
    by blast
  have r: "playlists_list yt cid 50 (page_token yt cid n) = Inr res"
    using res(1) by (simp add: page_answer_def)
  show ?case
    unfolding kn
    by (subst playlists_loop.simps)
       (use res r in \<open>simp add: Let_def more_pages_def page_items_def items_of_def\<close>)
next
  case (Suc m)
  then have lt: "k < n" by simp
  have "\<exists>res. page_answer yt cid k = Inr res \<and> (more_pages res \<longleftrightarrow> k < n)"
    using assms lt unfolding pages_end_at_def by (meson less_imp_le)
  then obtain res where res: "page_answer yt cid k = Inr res" "more_pages res"
    using lt by blast
  have r: "playlists_list yt cid 50 (page_token yt cid k) = Inr res"
    using res(1) by (simp add: page_answer_def)
  have tok: "page_token yt cid (Suc k) = nextPageToken res"
    using r by simp
  have m: "m = n - Suc k" using Suc.hyps(2) by simp
  have le: "Suc k \<le> n" using lt by simp
  have up: "[k..<Suc n] = k # [Suc k..<Suc n]" using lt by (simp add: upt_conv_Cons)
  have "playlists_loop yt cid acc (page_token yt cid k) reqs =
        playlists_loop yt cid (acc @ items_of res) (page_token yt cid (Suc k))
          (reqs @ [(cid, 50, page_token yt cid k)])"
    by (subst playlists_loop.simps)
       (use res r tok in \<open>auto simp: Let_def more_pages_def items_of_def\<close>)
  also have "\<dots> = Some (Inr ((acc @ items_of res) @ concat (map (page_items yt cid) [Suc k..<Suc n]),
                  (reqs @ [(cid, 50, page_token yt cid k)]) @
                    map (\<lambda>j. (cid, 50, page_token yt cid j)) [Suc k..<Suc n]))"
    by (rule Suc.hyps(1)[OF m le])
  finally have e: "playlists_loop yt cid acc (page_token yt cid k) reqs =
      Some (Inr ((acc @ items_of res) @ concat (map (page_items yt cid) [Suc k..<Suc n]),
                  (reqs @ [(cid, 50, page_token yt cid k)]) @
                    map (\<lambda>j. (cid, 50, page_token yt cid j)) [Suc k..<Suc n]))" .
  have items: "page_items yt cid k = items_of res" by (simp add: page_items_def res(1))
  show ?case unfolding up using e items by (simp del: upt_Suc)
qed

lemma paged_120:
  assumes "length all_playlists = 120"
  shows "list_all_playlists_traced (paged_youtube all_playlists) cid =
           Some (Inr (all_playlists, [(cid, 50, None), (cid, 50, Some ''x''), (cid, 50, Some ''xx'')]))"
proof -
  have t: "take 50 (drop 100 all_playlists) = drop 100 all_playlists" using assms by simp
  have "take 50 (drop 50 all_playlists) @ drop 100 all_playlists = drop 50 all_playlists"
    using append_take_drop_id[of 50 "drop 50 all_playlists"] by simp
  then have j: "take 50 all_playlists @ take 50 (drop 50 all_playlists) @ drop 100 all_playlists
      = all_playlists" by simp
  show ?thesis
    unfolding list_all_playlists_traced_def
    apply (subst playlists_loop.simps)
    apply (simp add: paged_youtube_def assms Let_def)
    apply (subst playlists_loop.simps)
    apply (simp add: paged_youtube_def assms Let_def)
    apply (subst playlists_loop.simps)
    apply (simp add: paged_youtube_def assms Let_def t j)
    done
qed

lemma empty_first_page:
  assumes "playlists_list yt cid 50 None = Inr res" and "items_of res = []" and "\<not> more_pages res"
  shows "list_all_playlists yt cid = Some (Inr [])"
  unfolding list_all_playlists_def list_all_playlists_traced_def
  by (subst playlists_loop.simps)
     (use assms in \<open>auto simp: Let_def more_pages_def items_of_def\<close>)

text \<open>
  Claim C6. Every request of the enumerator asks for at most 50 items of the channel; the
  first carries no token and each further one the token of the answer before. When the
  answer to the request number \<open>n\<close> is the first without a token, the enumerator returns
  after these \<open>n + 1\<close> requests with the playlists of all the pages, in order. A provider
  that holds 120 playlists and pages them by the size asked for is asked three times and
  all 120 playlists are returned. A first page with no items and no token gives the empty
  list.
\<close>

theorem list_all_playlists_pages:
  "(pages_end_at yt cid n \<longrightarrow>
      list_all_playlists_traced yt cid =
        Some (Inr (concat (map (page_items yt cid) [0..<Suc n]),
                   map (\<lambda>k. (cid, 50, page_token yt cid k)) [0..<Suc n])))
   \<and> (length all_playlists = 120 \<longrightarrow>
      list_all_playlists_traced (paged_youtube all_playlists) cid' =
        Some (Inr (all_playlists,
                   [(cid', 50, None), (cid', 50, Some ''x''), (cid', 50, Some ''xx'')])))
   \<and> (playlists_list yt0 cid0 50 None = Inr res \<and> items_of res = [] \<and> \<not> more_pages res \<longrightarrow>
      list_all_playlists yt0 cid0 = Some (Inr []))"
proof (intro conjI impI)
  assume "pages_end_at yt cid n"
  from playlists_loop_run[OF this, of 0 "[]" "[]"]
  show "list_all_playlists_traced yt cid =
        Some (Inr (concat (map (page_items yt cid) [0..<Suc n]),
                   map (\<lambda>k. (cid, 50, page_token yt cid k)) [0..<Suc n]))"
    by (simp add: list_all_playlists_traced_def del: upt_Suc)
next
  assume "length all_playlists = 120"
  then show "list_all_playlists_traced (paged_youtube all_playlists) cid' =
        Some (Inr (all_playlists,
                   [(cid', 50, None), (cid', 50, Some ''x''), (cid', 50, Some ''xx'')]))"
    by (rule paged_120)
next
  assume "playlists_list yt0 cid0 50 None = Inr res \<and> items_of res = [] \<and> \<not> more_pages res"
  then show "list_all_playlists yt0 cid0 = Some (Inr [])"
    using empty_first_page by blast
qed

lemma many_tokens:
  "page_token (paged_youtube many_playlists) cid 0 = None"
  "page_token (paged_youtube many_playlists) cid (Suc 0) = Some ''x''"
  "page_token (paged_youtube many_playlists) cid (Suc (Suc 0)) = Some ''xx''"
  by (simp_all add: paged_youtube_def many_playlists_def Let_def)

lemma many_pages_end: "pages_end_at (paged_youtube many_playlists) cid 2"
proof -
  have "\<exists>res. page_answer (paged_youtube many_playlists) cid k = Inr res \<and> (more_pages res \<longleftrightarrow> k < 2)"
    if "k \<le> 2" for k
  proof -
    from that consider "k = 0" | "k = Suc 0" | "k = Suc (Suc 0)" by linarith
    then show ?thesis
      by cases
         (simp_all add: page_answer_def many_tokens more_pages_def,
          simp_all add: paged_youtube_def many_playlists_def Let_def)
  qed
  then show ?thesis by (simp add: pages_end_at_def)
qed

text \<open>
  The statement of C6 at a provider of 120 playlists and at a provider of none.
\<close>

theorem list_all_playlists_pages_witness:
  "pages_end_at (paged_youtube many_playlists) ''UC1'' 2 \<and>
   length many_playlists = 120 \<and>
   playlists_list (paged_youtube []) ''UC0'' 50 None = Inr \<lparr>pl_items = Some [], nextPageToken = None\<rparr> \<and>
   list_all_playlists_traced (paged_youtube many_playlists) ''UC1'' =
     Some (Inr (many_playlists,
                [(''UC1'', 50, None), (''UC1'', 50, Some ''x''), (''UC1'', 50, Some ''xx'')])) \<and>
   list_all_playlists_traced (paged_youtube many_playlists) ''UC1'' =
     Some (Inr (concat (map (page_items (paged_youtube many_playlists) ''UC1'') [0..<Suc 2]),
                map (\<lambda>k. (''UC1'', 50, page_token (paged_youtube many_playlists) ''UC1'' k))
                  [0..<Suc 2])) \<and>
   list_all_playlists (paged_youtube []) ''UC0'' = Some (Inr [])"
proof -
  have a: "pages_end_at (paged_youtube many_playlists) ''UC1'' 2" by (rule many_pages_end)
  have b: "length many_playlists = 120" by (simp add: many_playlists_def)
  have c: "playlists_list (paged_youtube []) ''UC0'' 50 None =
      Inr \<lparr>pl_items = Some [], nextPageToken = None\<rparr>"
    by (simp add: paged_youtube_def)
  have d: "items_of \<lparr>pl_items = Some [], nextPageToken = None\<rparr> = []"
    "\<not> more_pages \<lparr>pl_items = Some [], nextPageToken = None\<rparr>"
    by (simp_all add: items_of_def more_pages_def)
  note t = list_all_playlists_pages[of "paged_youtube many_playlists" "''UC1''" 2 many_playlists
        "''UC1''" "paged_youtube []" "''UC0''" "\<lparr>pl_items = Some [], nextPageToken = None\<rparr>"]
  have t1: "list_all_playlists_traced (paged_youtube many_playlists) ''UC1'' =
     Some (Inr (concat (map (page_items (paged_youtube many_playlists) ''UC1'') [0..<Suc 2]),
                map (\<lambda>k. (''UC1'', 50, page_token (paged_youtube many_playlists) ''UC1'' k))
                  [0..<Suc 2]))"
    using t[THEN conjunct1] a by (rule mp)
  have t2: "list_all_playlists_traced (paged_youtube many_playlists) ''UC1'' =
     Some (Inr (many_playlists,
                [(''UC1'', 50, None), (''UC1'', 50, Some ''x''), (''UC1'', 50, Some ''xx'')]))"
    using t[THEN conjunct2, THEN conjunct1] b by (rule mp)
  have t3: "list_all_playlists (paged_youtube []) ''UC0'' = Some (Inr [])"
    using t[THEN conjunct2, THEN conjunct2] c d by (iprover intro: conjI elim: mp)
  show ?thesis
    by (intro conjI) (rule a b c t1 t2 t3)+
qed

subsection \<open>Playlist matcher, channel resolver, links across courses\<close>

lemma map_upd_add_assoc: "m(k \<mapsto> v) ++ n = m ++ ([k \<mapsto> v] ++ n)"
  by (rule ext) (simp add: map_add_def split: option.splits)

lemma map_of_match_title:
  "map_of (match_title d pls found) = map_of found ++ map_of (rev (hits d pls))"
proof (induction pls arbitrary: found)
  case Nil
  then show ?case by (simp add: hits_def)
next
  case (Cons pl pls)
  show ?case
  proof (cases "title_matches d (pl_title pl)")
    case True
    have "map_of (match_title d (pl # pls) found) =
          map_of (AList.update (pl_title pl) (pl_id pl) found) ++ map_of (rev (hits d pls))"
      using True Cons.IH by (simp add: title_matches_def Let_def)
    also have "\<dots> = map_of found ++ map_of (rev (hits d (pl # pls)))"
    proof -
      have "map_of (rev (hits d (pl # pls))) =
            [pl_title pl \<mapsto> pl_id pl] ++ map_of (rev (hits d pls))"
        using True by (simp add: hits_def)
      then show ?thesis
        unfolding update_conv' by (simp only: map_upd_add_assoc[of "map_of found"])
    qed
    finally show ?thesis .
  next
    case False
    then show ?thesis using Cons.IH by (simp add: title_matches_def hits_def Let_def)
  qed
qed

lemma map_of_match_playlists:
  "map_of (match_playlists ds all found) =
     map_of found ++ map_of (rev (concat (map (\<lambda>d. hits d all) ds)))"
proof (induction ds arbitrary: found)
  case Nil
  then show ?case by simp
next
  case (Cons d ds)
  show ?case
    by (simp add: Cons.IH map_of_match_title)
qed

lemma distinct_match_title:
  "distinct (map fst found) \<Longrightarrow> distinct (map fst (match_title d pls found))"
  by (induction pls arbitrary: found) (simp_all add: Let_def distinct_update)

lemma distinct_match_playlists:
  "distinct (map fst found) \<Longrightarrow> distinct (map fst (match_playlists ds all found))"
  by (induction ds arbitrary: found) (simp_all add: distinct_match_title)

lemma keys_match_playlists:
  "fst ` set (match_playlists ds all []) =
     {pl_title pl | pl. pl \<in> set all \<and> wanted ds (pl_title pl)}"
proof -
  have "fst ` set (match_playlists ds all []) = dom (map_of (match_playlists ds all []))"
    by (simp add: dom_map_of_conv_image_fst)
  also have "\<dots> = fst ` set (concat (map (\<lambda>d. hits d all) ds))"
    by (simp add: map_of_match_playlists dom_map_of_conv_image_fst)
  also have "\<dots> = {pl_title pl | pl. pl \<in> set all \<and> wanted ds (pl_title pl)}"
    by (auto simp: hits_def wanted_def image_iff) force+
  finally show ?thesis .
qed

lemma values_match_playlists:
  assumes "(t, i) \<in> set (match_playlists ds all [])"
  shows "\<exists>pl\<in>set all. pl_title pl = t \<and> pl_id pl = i \<and> wanted ds t"
proof -
  have "map_of (match_playlists ds all []) t = Some i"
    using assms distinct_match_playlists[of "[]" ds all] by simp
  then have "map_of (rev (concat (map (\<lambda>d. hits d all) ds))) t = Some i"
    by (simp add: map_of_match_playlists)
  then have "(t, i) \<in> set (concat (map (\<lambda>d. hits d all) ds))"
    using map_of_SomeD by fastforce
  then show ?thesis by (auto simp: hits_def wanted_def)
qed

lemma map_of_rev_last:
  "map_of (rev xs) k =
     (case filter (\<lambda>p. fst p = k) xs of [] \<Rightarrow> None | y # ys \<Rightarrow> Some (snd (last (y # ys))))"
proof (induction xs rule: rev_induct)
  case Nil
  then show ?case by simp
next
  case (snoc x xs)
  then show ?case by (cases x) (auto split: list.splits)
qed

lemma filter_hits:
  "filter (\<lambda>p. fst p = t) (hits d all) =
     (if title_matches d t then map (\<lambda>pl. (t, pl_id pl)) (filter (\<lambda>pl. pl_title pl = t) all)
      else [])"
  by (induction all) (auto simp: hits_def)

lemma last_concat_const:
  assumes "\<exists>d\<in>set ds. P d" and "L \<noteq> []"
  shows "concat (map (\<lambda>d. if P d then L else []) ds) \<noteq> [] \<and>
         last (concat (map (\<lambda>d. if P d then L else []) ds)) = last L"
  using assms(1)
proof (induction ds rule: rev_induct)
  case Nil
  then show ?case by simp
next
  case (snoc d ds)
  show ?case
  proof (cases "P d")
    case True
    then show ?thesis using assms(2) by simp
  next
    case False
    then have "\<exists>d\<in>set ds. P d" using snoc.prems by auto
    from snoc.IH[OF this] False show ?thesis by simp
  qed
qed

lemma last_wins:
  assumes "pl \<in> set all" and "wanted ds (pl_title pl)"
  shows "map_of (match_playlists ds all []) (pl_title pl) =
           Some (pl_id (last (filter (\<lambda>q. pl_title q = pl_title pl) all)))"
proof -
  let ?t = "pl_title pl"
  let ?same = "filter (\<lambda>q. pl_title q = ?t) all"
  let ?L = "map (\<lambda>q. (?t, pl_id q)) ?same"
  have ne: "?same \<noteq> []" using assms(1) by (auto simp: filter_empty_conv)
  then have Lne: "?L \<noteq> []" by simp
  have f: "filter (\<lambda>p. fst p = ?t) (concat (map (\<lambda>d. hits d all) ds)) =
           concat (map (\<lambda>d. if title_matches d ?t then ?L else []) ds)"
    by (simp add: filter_concat o_def filter_hits)
  have ex: "\<exists>d\<in>set ds. title_matches d ?t" using assms(2) by (simp add: wanted_def)
  note lc = last_concat_const[of ds "\<lambda>d. title_matches d ?t" ?L, OF ex Lne]
  let ?C = "concat (map (\<lambda>d. if title_matches d ?t then ?L else []) ds)"
  from lc obtain y ys where C: "?C = y # ys" by (cases ?C) auto
  have "map_of (rev (concat (map (\<lambda>d. hits d all) ds))) ?t = Some (snd (last ?C))"
    unfolding map_of_rev_last f by (simp add: C)
  then have "map_of (rev (concat (map (\<lambda>d. hits d all) ds))) ?t = Some (snd (last ?L))"
    using lc by simp
  moreover have "snd (last ?L) = pl_id (last ?same)" using ne by (simp add: last_map)
  ultimately show ?thesis by (simp add: map_of_match_playlists)
qed

text \<open>
  Claim C7, as amended. The dictionary \<^verbatim>\<open>found_playlists\<close> has one entry per title, and
  a title is a key exactly when it is the title of an enumerated playlist and some desired
  substring occurs in it, case set aside. The value under a title is the identifier of an
  enumerated playlist with that title: the last one enumerated. So when playlists with
  equal titles have equal identifiers, a playlist is selected exactly when some desired
  substring occurs in its title. Of the titles \<open>Lecture Videos\<close>, \<open>Recitation Videos\<close>
  and \<open>Exam Review\<close>, the substring \<open>lecture\<close> selects the first alone and \<open>videos\<close>
  the first two.
\<close>

theorem playlists_selected_by_title:
  fixes playlist_titles :: "string list" and all_playlists :: "playlist list"
  defines "found \<equiv> match_playlists playlist_titles all_playlists []"
  shows "(\<forall>t. t \<in> fst ` set found \<longleftrightarrow>
            (\<exists>pl\<in>set all_playlists. pl_title pl = t \<and> wanted playlist_titles t))
       \<and> distinct (map fst found)
       \<and> (\<forall>t i. (t, i) \<in> set found \<longrightarrow> (\<exists>pl\<in>set all_playlists. pl_title pl = t \<and> pl_id pl = i))
       \<and> (\<forall>pl\<in>set all_playlists. wanted playlist_titles (pl_title pl) \<longrightarrow>
            map_of found (pl_title pl) =
              Some (pl_id (last (filter (\<lambda>q. pl_title q = pl_title pl) all_playlists))))
       \<and> ((\<forall>p\<in>set all_playlists. \<forall>q\<in>set all_playlists.
              pl_title p = pl_title q \<longrightarrow> pl_id p = pl_id q) \<longrightarrow>
            (\<forall>pl\<in>set all_playlists. selected found pl \<longleftrightarrow> wanted playlist_titles (pl_title pl)))
       \<and> match_playlists [''lecture''] three_playlists [] = [(''Lecture Videos'', ''PL-lec'')]
       \<and> match_playlists [''videos''] three_playlists [] =
            [(''Lecture Videos'', ''PL-lec''), (''Recitation Videos'', ''PL-rec'')]"
proof (intro conjI)
  show keys: "\<forall>t. t \<in> fst ` set found \<longleftrightarrow>
            (\<exists>pl\<in>set all_playlists. pl_title pl = t \<and> wanted playlist_titles t)"
    unfolding found_def keys_match_playlists by auto
  show dist: "distinct (map fst found)"
    unfolding found_def by (rule distinct_match_playlists) simp
  show vals: "\<forall>t i. (t, i) \<in> set found \<longrightarrow>
      (\<exists>pl\<in>set all_playlists. pl_title pl = t \<and> pl_id pl = i)"
    unfolding found_def using values_match_playlists by blast
  show lastw: "\<forall>pl\<in>set all_playlists. wanted playlist_titles (pl_title pl) \<longrightarrow>
            map_of found (pl_title pl) =
              Some (pl_id (last (filter (\<lambda>q. pl_title q = pl_title pl) all_playlists)))"
    unfolding found_def using last_wins by blast
  show "(\<forall>p\<in>set all_playlists. \<forall>q\<in>set all_playlists.
              pl_title p = pl_title q \<longrightarrow> pl_id p = pl_id q) \<longrightarrow>
            (\<forall>pl\<in>set all_playlists. selected found pl \<longleftrightarrow> wanted playlist_titles (pl_title pl))"
  proof (intro impI ballI iffI)
    fix pl
    assume inj: "\<forall>p\<in>set all_playlists. \<forall>q\<in>set all_playlists.
              pl_title p = pl_title q \<longrightarrow> pl_id p = pl_id q"
      and pl: "pl \<in> set all_playlists"
    {
      assume "selected found pl"
      then have "pl_title pl \<in> fst ` set found" by (force simp: selected_def)
      then show "wanted playlist_titles (pl_title pl)" using keys by blast
    }
    {
      assume w: "wanted playlist_titles (pl_title pl)"
      then have "pl_title pl \<in> fst ` set found" using keys pl by blast
      then obtain i where i: "(pl_title pl, i) \<in> set found" by force
      then obtain q where "q \<in> set all_playlists" "pl_title q = pl_title pl" "pl_id q = i"
        using vals by blast
      then have "i = pl_id pl" using inj pl by metis
      then show "selected found pl" using i by (simp add: selected_def)
    }
  qed
  show "match_playlists [''lecture''] three_playlists [] = [(''Lecture Videos'', ''PL-lec'')]"
    by (simp add: three_playlists_def lower_def lower_char_def Let_def)
  show "match_playlists [''videos''] three_playlists [] =
            [(''Lecture Videos'', ''PL-lec''), (''Recitation Videos'', ''PL-rec'')]"
    by (simp add: three_playlists_def lower_def lower_char_def Let_def)
qed

text \<open>
  Claim C7 as stated fails for two playlists of the same title: both titles contain the
  desired substring, and the one enumerated first is not selected.
\<close>

theorem same_title_counterexample:
  "match_playlists [''lecture''] same_title_playlists [] = [(''Lecture Videos'', ''PL-2020'')] \<and>
   contains (lower ''Lecture Videos'') (lower ''lecture'') \<and>
   same_title_playlists ! 0 = \<lparr>pl_id = ''PL-2019'', pl_title = ''Lecture Videos''\<rparr> \<and>
   (''Lecture Videos'', ''PL-2019'') \<notin> set (match_playlists [''lecture''] same_title_playlists [])"
  by (simp add: same_title_playlists_def lower_def lower_char_def Let_def)

text \<open>
  The statement of C7 at the three titles and the substring \<open>videos\<close>.
\<close>

theorem playlists_selected_by_title_witness:
  "distinct (map pl_title three_playlists) \<and>
   wanted [''videos''] ''Lecture Videos'' \<and>
   selected (match_playlists [''videos''] three_playlists [])
     \<lparr>pl_id = ''PL-lec'', pl_title = ''Lecture Videos''\<rparr> \<and>
   distinct (map fst (match_playlists [''videos''] three_playlists []))"
proof -
  note t = playlists_selected_by_title[of "[''videos'']" three_playlists]
  have inj: "\<forall>p\<in>set three_playlists. \<forall>q\<in>set three_playlists.
              pl_title p = pl_title q \<longrightarrow> pl_id p = pl_id q"
    by (simp add: three_playlists_def)
  have w: "wanted [''videos''] ''Lecture Videos''"
    by (simp add: wanted_def title_matches_def lower_def lower_char_def)
  have m: "\<lparr>pl_id = ''PL-lec'', pl_title = ''Lecture Videos''\<rparr> \<in> set three_playlists"
    by (simp add: three_playlists_def)
  from t inj have "\<forall>pl\<in>set three_playlists.
      selected (match_playlists [''videos''] three_playlists []) pl \<longleftrightarrow>
      wanted [''videos''] (pl_title pl)" by blast
  with m w have s: "selected (match_playlists [''videos''] three_playlists [])
     \<lparr>pl_id = ''PL-lec'', pl_title = ''Lecture Videos''\<rparr>" by fastforce
  have d: "distinct (map pl_title three_playlists)" by (simp add: three_playlists_def)
  from t have d2: "distinct (map fst (match_playlists [''videos''] three_playlists []))" by blast
  show ?thesis using d w s d2 by blast
qed

text \<open>
  Claim C1 against the code. When the provider's lookup answers with an empty list of
  items, \<^verbatim>\<open>resolve_channel_id\<close> subscripts that list and fails with \<^verbatim>\<open>IndexError\<close>; it
  raises no \<^verbatim>\<open>NotFoundError\<close> and has no check of its own.
\<close>

theorem resolve_channel_id_no_items:
  assumes "channels_list yt (lstrip (CHR ''@'') handle) 1 = Inr res" and "ch_items res = Some []"
  shows "resolve_channel_id yt handle = Inl IndexError \<and>
         (\<forall>m. resolve_channel_id yt handle \<noteq> Inl (NotFoundError m))"
  using assms by (simp add: resolve_channel_id_def Let_def)

text \<open>
  The evaluation at the handle \<open>@nobody\<close> of a provider that knows no channel.
\<close>

theorem resolve_channel_id_no_items_witness:
  "channels_list no_such_channel (lstrip (CHR ''@'') ''@nobody'') 1 = Inr \<lparr>ch_items = Some []\<rparr> \<and>
   resolve_channel_id no_such_channel ''@nobody'' = Inl IndexError"
proof -
  have a: "channels_list no_such_channel (lstrip (CHR ''@'') ''@nobody'') 1 =
      Inr \<lparr>ch_items = Some []\<rparr>"
    by (simp add: no_such_channel_def)
  from resolve_channel_id_no_items[OF a] a show ?thesis by simp
qed

text \<open>
  Claim C8 against the code. Every link of the seed page whose \<open>href\<close> starts with
  \<open>/courses/\<close> and contains \<open>/pages/\<close> is requested by the crawl, whatever course the
  \<open>href\<close> names: the test does not mention the course of the seed.
\<close>

theorem links_followed_whatever_course:
  assumes "crawl site clock depth course_handle = Some st"
    and "site (''https://ocw.mit.edu/courses/'' @ course_handle @ ''/'') = Inr anchors"
    and "(href, text) \<in> set anchors"
    and "startswith href ''/courses/''" and "contains href ''/pages/''"
  shows "''https://ocw.mit.edu'' @ href \<in> set (fetched st)"
proof -
  let ?base = "''https://ocw.mit.edu/courses/'' @ course_handle @ ''/''"
  let ?st0 = "\<lparr>visited = {}, results = [], fetched = []\<rparr>"
  have run: "scrape_page site clock course_handle depth ?base ?st0 = Some st"
    using assms(1) by (simp add: crawl_def Let_def)
  then obtain n where n: "depth = Suc n" by (cases depth) auto
  let ?st2 = "\<lparr>visited = {?base},
               results = find_pdfs clock course_handle ?base anchors [], fetched = [?base]\<rparr>"
  have "recurse_subpages site clock course_handle n anchors ?st2 = Some st"
    using run n assms(2) by (simp add: Let_def)
  from recurse_marks[OF this assms(3)] assms(4,5)
  have "''https://ocw.mit.edu'' @ href \<in> visited st" by (simp add: follows_def)
  then show ?thesis using crawl_fetch_inv[OF assms(1)] by (simp add: fetch_inv_def)
qed

lemma two_course_eval:
  "map_option (\<lambda>st. (fetched st, map (\<lambda>d. (map_of d ''url'', map_of d ''course_handle'')) (results st)))
     (crawl two_course_site tick 3 ''course-a'') =
   Some ([''https://ocw.mit.edu/courses/course-a/'',
          ''https://ocw.mit.edu/courses/course-b/pages/syllabus/''],
         [(Some (JStr ''https://ocw.mit.edu/courses/course-b/notes.pdf''),
           Some (JStr ''course-a''))])"
  by (simp add: crawl_def two_course_site_def eval_nat_numeral endswith_def Let_def pdf_resource_def)

text \<open>
  The seed page of \<open>course-a\<close> links to a sub-page of \<open>course-b\<close>; the crawl requests that
  page, and the document found there is recorded under \<open>course-a\<close>.
\<close>

theorem other_course_followed:
  "\<exists>st. crawl two_course_site tick 3 ''course-a'' = Some st \<and>
     two_course_site (''https://ocw.mit.edu/courses/'' @ ''course-a'' @ ''/'') =
       Inr [(''/courses/course-b/pages/syllabus/'', ''A related course'')] \<and>
     \<not> startswith ''/courses/course-b/pages/syllabus/'' ''/courses/course-a/'' \<and>
     ''https://ocw.mit.edu'' @ ''/courses/course-b/pages/syllabus/'' \<in> set (fetched st) \<and>
     map (\<lambda>d. (map_of d ''url'', map_of d ''course_handle'')) (results st) =
       [(Some (JStr ''https://ocw.mit.edu/courses/course-b/notes.pdf''), Some (JStr ''course-a''))]"
proof -
  have "\<exists>st. crawl two_course_site tick 3 ''course-a'' = Some st \<and>
     (fetched st, map (\<lambda>d. (map_of d ''url'', map_of d ''course_handle'')) (results st)) =
       ([''https://ocw.mit.edu/courses/course-a/'',
          ''https://ocw.mit.edu/courses/course-b/pages/syllabus/''],
         [(Some (JStr ''https://ocw.mit.edu/courses/course-b/notes.pdf''),
           Some (JStr ''course-a''))])"
    using two_course_eval unfolding map_option_eq_Some .
  then obtain st where st: "crawl two_course_site tick 3 ''course-a'' = Some st"
    and r: "map (\<lambda>d. (map_of d ''url'', map_of d ''course_handle'')) (results st) =
       [(Some (JStr ''https://ocw.mit.edu/courses/course-b/notes.pdf''), Some (JStr ''course-a''))]"
    by (elim exE conjE) simp
  have s: "two_course_site (''https://ocw.mit.edu/courses/'' @ ''course-a'' @ ''/'') =
       Inr [(''/courses/course-b/pages/syllabus/'', ''A related course'')]"
    by (simp add: two_course_site_def)
  have n: "\<not> startswith ''/courses/course-b/pages/syllabus/'' ''/courses/course-a/''" by simp
  have f: "''https://ocw.mit.edu'' @ ''/courses/course-b/pages/syllabus/'' \<in> set (fetched st)"
    by (rule links_followed_whatever_course[OF st s, of _ "''A related course''"]) simp_all
  show ?thesis
    by (rule exI[of _ st]) (intro conjI; rule st s n f r)
qed

end
